theory Spec2Isabelle
  imports Main "HOL-Library.Word"
begin

section \<open>Python strings\<close>

text \<open>
  The program is a single Python script, \<^verbatim>\<open>app.py\<close>. A Python \<^verbatim>\<open>str\<close> is modelled as a
  \<^typ>\<open>string\<close>: one \<^typ>\<open>char\<close> per code point, so the model covers the code points
  0 to 255 (Latin-1), with the character classes Python gives them.
\<close>

definition is_space :: "char \<Rightarrow> bool" where
  \<comment> \<open>\<^verbatim>\<open>str.isspace\<close> on one character: what \<^verbatim>\<open>str.strip()\<close> removes.\<close>
  "is_space c =
     (let n = (of_char c :: nat)
      in (9 \<le> n \<and> n \<le> 13) \<or> (28 \<le> n \<and> n \<le> 32) \<or> n = 133 \<or> n = 160)"

definition strip :: "string \<Rightarrow> string" where
  \<comment> \<open>\<^verbatim>\<open>s.strip()\<close>\<close>
  "strip s = rev (dropWhile is_space (rev (dropWhile is_space s)))"

definition lower_char :: "char \<Rightarrow> char" where
  "lower_char c =
     (let n = (of_char c :: nat)
      in if (65 \<le> n \<and> n \<le> 90) \<or> (192 \<le> n \<and> n \<le> 222 \<and> n \<noteq> 215)
         then char_of (n + 32) else c)"

definition lower :: "string \<Rightarrow> string" where
  \<comment> \<open>\<^verbatim>\<open>s.lower()\<close>\<close>
  "lower s = map lower_char s"

fun split_on :: "char \<Rightarrow> string \<Rightarrow> string list" where
  \<comment> \<open>\<^verbatim>\<open>s.split(sep)\<close> for a separator of one character: never the empty list.\<close>
  "split_on sep [] = [[]]"
| "split_on sep (c # cs) =
     (if c = sep then [] # split_on sep cs
      else (case split_on sep cs of [] \<Rightarrow> [[c]] | piece # pieces \<Rightarrow> (c # piece) # pieces))"

fun show_nat :: "nat \<Rightarrow> string" where
  \<comment> \<open>\<^verbatim>\<open>str(n)\<close>, as an f-string formats a non-negative integer.\<close>
  "show_nat n =
     (if n < 10 then [''0123456789'' ! n]
      else show_nat (n div 10) @ [''0123456789'' ! (n mod 10)])"

declare show_nat.simps [simp del]

abbreviation newline :: char where
  "newline \<equiv> CHR 0x0A"

abbreviation hyphen :: char where
  "hyphen \<equiv> CHR ''-''"

fun expandtabs :: "nat \<Rightarrow> nat \<Rightarrow> string \<Rightarrow> string" where
  \<comment> \<open>\<^verbatim>\<open>s.expandtabs(tabsize)\<close>; the second argument is the current column.\<close>
  "expandtabs tabsize col [] = []"
| "expandtabs tabsize col (c # cs) =
     (if c = CHR 0x09 then
        (if 0 < tabsize
         then replicate (tabsize - col mod tabsize) CHR '' ''
              @ expandtabs tabsize (col + (tabsize - col mod tabsize)) cs
         else expandtabs tabsize col cs)
      else c # expandtabs tabsize (if c = newline \<or> c = CHR 0x0D then 0 else col + 1) cs)"

definition rfind :: "char \<Rightarrow> string \<Rightarrow> nat option" where
  \<comment> \<open>\<^verbatim>\<open>s.rfind(c)\<close>: the highest index holding \<open>c\<close>; \<open>None\<close> stands for -1.\<close>
  "rfind c s =
     (case dropWhile (\<lambda>x. x \<noteq> c) (rev s) of [] \<Rightarrow> None | r # rs \<Rightarrow> Some (length rs))"

section \<open>The standard library's \<^verbatim>\<open>textwrap.wrap\<close>\<close>

text \<open>
  \<^verbatim>\<open>split_text\<close> is \<^verbatim>\<open>wrap(text, max_chars)\<close>, that is
  \<^verbatim>\<open>TextWrapper(width=max_chars).wrap(text)\<close> with every other option at its default:
  tabs expanded (tab size 8), whitespace replaced by spaces, whitespace dropped at line
  ends, long words broken, breaks allowed after hyphens, no limit on the number of lines
  and no indent.
\<close>

datatype error = ValueError | IndexError | UnicodeDecodeError | PdfError | CapabilityError

definition tw_whitespace :: "char \<Rightarrow> bool" where
  \<comment> \<open>membership in \<^verbatim>\<open>textwrap._whitespace\<close>, the string of tab, LF, VT, FF, CR and space\<close>
  "tw_whitespace c = (c \<in> {CHR 0x09, CHR 0x0A, CHR 0x0B, CHR 0x0C, CHR 0x0D, CHR 0x20})"

definition munge_whitespace :: "string \<Rightarrow> string" where
  "munge_whitespace text =
     map (\<lambda>c. if tw_whitespace c then CHR '' '' else c) (expandtabs 8 0 text)"

subsection \<open>The chunk pattern \<^verbatim>\<open>wordsep_re\<close>\<close>

definition is_decimal :: "char \<Rightarrow> bool" where
  \<comment> \<open>the class \<^verbatim>\<open>\d\<close>\<close>
  "is_decimal c = (let n = (of_char c :: nat) in 48 \<le> n \<and> n \<le> 57)"

definition is_word :: "char \<Rightarrow> bool" where
  \<comment> \<open>the class \<^verbatim>\<open>\w\<close>: alphanumeric, or the underscore\<close>
  "is_word c =
     (let n = (of_char c :: nat)
      in (48 \<le> n \<and> n \<le> 57) \<or> (65 \<le> n \<and> n \<le> 90) \<or> n = 95 \<or> (97 \<le> n \<and> n \<le> 122)
         \<or> n = 170 \<or> n = 178 \<or> n = 179 \<or> n = 181 \<or> n = 185 \<or> n = 186
         \<or> (188 \<le> n \<and> n \<le> 190) \<or> (192 \<le> n \<and> n \<noteq> 215 \<and> n \<noteq> 247))"

definition letter :: "char \<Rightarrow> bool" where
  \<comment> \<open>the class \<^verbatim>\<open>[^\d\W]\<close>\<close>
  "letter c = (is_word c \<and> \<not> is_decimal c)"

definition word_punct :: "char \<Rightarrow> bool" where
  \<comment> \<open>the class \<^verbatim>\<open>[\w!"'&.,?]\<close>\<close>
  "word_punct c =
     (is_word c \<or> c \<in> {CHR ''!'', CHR 0x22, CHR 0x27, CHR ''&'', CHR ''.'', CHR '','', CHR ''?''})"

fun letter_hyphen_letter :: "string \<Rightarrow> bool" where
  \<comment> \<open>two letters, with at most one hyphen between them, start the string\<close>
  "letter_hyphen_letter (a # b # c # cs) = (letter a \<and> (letter b \<or> (b = hyphen \<and> letter c)))"
| "letter_hyphen_letter [a, b] = (letter a \<and> letter b)"
| "letter_hyphen_letter cs = False"

definition emdash_ahead :: "string \<Rightarrow> bool" where
  \<comment> \<open>the lookahead \<^verbatim>\<open>(?=-{2,}\w)\<close>\<close>
  "emdash_ahead rest =
     (let k = length (takeWhile (\<lambda>c. c = hyphen) rest)
      in 2 \<le> k \<and> (case drop k rest of [] \<Rightarrow> False | c # cs \<Rightarrow> is_word c))"

definition behind_word_punct :: "string \<Rightarrow> bool" where
  \<comment> \<open>the lookbehind \<^verbatim>\<open>(?<=[\w!"'&.,?])\<close>, on the reversed text before the position\<close>
  "behind_word_punct prev = (case prev of [] \<Rightarrow> False | p # ps \<Rightarrow> word_punct p)"

fun word_end :: "string \<Rightarrow> string \<Rightarrow> nat" where
  \<comment> \<open>The third alternative of the pattern, after its first character: the lazy
      \<^verbatim>\<open>[^ws]+?\<close> takes one more character at a time until a hyphen of a hyphenated word
      (which the match includes), whitespace or the end of the text, or an em-dash
      follows. \<open>prev\<close> is the text before the position, reversed.\<close>
  "word_end prev [] = 0"
| "word_end prev (c # cs) =
     (if c = hyphen \<and> letter_hyphen_letter prev \<and> letter_hyphen_letter cs then 1
      else if tw_whitespace c then 0
      else if behind_word_punct prev \<and> emdash_ahead (c # cs) then 0
      else 1 + word_end (c # prev) cs)"

definition wordsep_match :: "string \<Rightarrow> string \<Rightarrow> nat" where
  \<comment> \<open>The length of the match of \<^verbatim>\<open>wordsep_re\<close> at a position: a run of whitespace, an
      em-dash between words, or a word. On text that is left it is at least 1.\<close>
  "wordsep_match prev rest =
     (case rest of
        [] \<Rightarrow> 0
      | c # cs \<Rightarrow>
          if tw_whitespace c then length (takeWhile tw_whitespace rest)
          else if behind_word_punct prev \<and> emdash_ahead rest
          then length (takeWhile (\<lambda>c. c = hyphen) rest)
          else 1 + word_end (c # prev) cs)"

lemma wordsep_match_pos: "rest \<noteq> [] \<Longrightarrow> 0 < wordsep_match prev rest"
  by (cases rest) (auto simp: wordsep_match_def emdash_ahead_def Let_def)

function wordsep_split :: "string \<Rightarrow> string \<Rightarrow> string list" where
  \<comment> \<open>\<^verbatim>\<open>wordsep_re.split(text)\<close> without the empty strings between adjacent matches:
      the pattern matches at every position, so the result is the list of matches.\<close>
  "wordsep_split prev rest =
     (if rest = [] then []
      else take (wordsep_match prev rest) rest
           # wordsep_split (rev (take (wordsep_match prev rest) rest) @ prev)
               (drop (wordsep_match prev rest) rest))"
  by pat_completeness auto
termination
proof (relation "measure (\<lambda>(prev, rest). length rest)")
  show "wf (measure (\<lambda>(prev, rest). length rest))" by simp
next
  fix prev rest :: string
  assume "rest \<noteq> []"
  then show "((rev (take (wordsep_match prev rest) rest) @ prev, drop (wordsep_match prev rest) rest),
              (prev, rest)) \<in> measure (\<lambda>(prev, rest). length rest)"
    using wordsep_match_pos [of rest prev] by simp
qed

declare wordsep_split.simps [simp del]

definition tw_split :: "string \<Rightarrow> string list" where
  \<comment> \<open>\<^verbatim>\<open>TextWrapper._split\<close>\<close>
  "tw_split text = filter (\<lambda>c. c \<noteq> []) (wordsep_split [] text)"

definition split_chunks :: "string \<Rightarrow> string list" where
  \<comment> \<open>\<^verbatim>\<open>TextWrapper._split_chunks\<close>\<close>
  "split_chunks text = tw_split (munge_whitespace text)"

subsection \<open>Filling lines: \<^verbatim>\<open>_wrap_chunks\<close>\<close>

definition all_space :: "string \<Rightarrow> bool" where
  \<comment> \<open>\<^verbatim>\<open>chunk.strip() == ''\<close>\<close>
  "all_space chunk = (strip chunk = [])"

fun fill_line :: "nat \<Rightarrow> nat \<Rightarrow> string list \<Rightarrow> string list \<times> string list" where
  \<comment> \<open>The inner loop: chunks move to the current line while they fit. The pair is the
      line's chunks and the chunks left.\<close>
  "fill_line width cur_len [] = ([], [])"
| "fill_line width cur_len (c # cs) =
     (if cur_len + length c \<le> width
      then (case fill_line width (cur_len + length c) cs of
              (cur_line, chunks) \<Rightarrow> (c # cur_line, chunks))
      else ([], c # cs))"

definition handle_long_word :: "nat \<Rightarrow> nat \<Rightarrow> string \<Rightarrow> string \<times> string" where
  \<comment> \<open>\<^verbatim>\<open>_handle_long_word\<close> with \<^verbatim>\<open>break_long_words\<close> and \<^verbatim>\<open>break_on_hyphens\<close> set: the
      part of the chunk put on the current line, and the part that stays first in the
      chunks. It is called with \<open>cur_len \<le> width\<close>.\<close>
  "handle_long_word width cur_len chunk =
     (let space_left = (if width < 1 then 1 else width - cur_len);
          e = (if space_left < length chunk then
                 (case rfind hyphen (take space_left chunk) of
                    None \<Rightarrow> space_left
                  | Some h \<Rightarrow>
                      if 0 < h \<and> list_ex (\<lambda>c. c \<noteq> hyphen) (take h chunk) then h + 1
                      else space_left)
               else space_left)
      in (take e chunk, drop e chunk))"

definition drop_leading :: "bool \<Rightarrow> string list \<Rightarrow> string list" where
  \<comment> \<open>a whitespace chunk that would start a line is deleted, unless no line exists yet\<close>
  "drop_leading started chunks =
     (case chunks of
        [] \<Rightarrow> []
      | c # cs \<Rightarrow> if all_space c \<and> started then cs else chunks)"

definition long_word :: "nat \<Rightarrow> string list \<times> string list \<Rightarrow> string list \<times> string list" where
  \<comment> \<open>after the inner loop: a first chunk left that is wider than a line is broken\<close>
  "long_word width filled =
     (case filled of
        (cur_line, []) \<Rightarrow> (cur_line, [])
      | (cur_line, c # cs) \<Rightarrow>
          if width < length c
          then (case handle_long_word width (sum_list (map length cur_line)) c of
                  (taken, left) \<Rightarrow> (cur_line @ [taken], left # cs))
          else (cur_line, c # cs))"

definition drop_trailing :: "string list \<Rightarrow> string list" where
  \<comment> \<open>a whitespace chunk that ends the line is deleted\<close>
  "drop_trailing cur_line =
     (if cur_line \<noteq> [] \<and> all_space (last cur_line) then butlast cur_line else cur_line)"

definition next_line :: "nat \<Rightarrow> bool \<Rightarrow> string list \<Rightarrow> string list \<times> string list" where
  \<comment> \<open>One pass of the outer loop on chunks that are not empty: the chunks of the line it
      builds (none when the line is dropped) and the chunks left. \<open>started\<close> says that
      \<^verbatim>\<open>lines\<close> is not empty.\<close>
  "next_line width started chunks =
     (case long_word width (fill_line width 0 (drop_leading started chunks)) of
        (cur_line, chunks') \<Rightarrow> (drop_trailing cur_line, chunks'))"

definition chunks_size :: "string list \<Rightarrow> nat" where
  "chunks_size chunks = sum_list (map length chunks) + length chunks"

lemma fill_line_app: "fill_line w n cs = (l, r) \<Longrightarrow> l @ r = cs"
  by (induction cs arbitrary: n l r) (auto split: if_splits prod.splits)

lemma chunks_size_Cons: "chunks_size (c # cs) = Suc (length c + chunks_size cs)"
  by (simp add: chunks_size_def)

lemma chunks_size_append: "chunks_size (xs @ ys) = chunks_size xs + chunks_size ys"
  by (simp add: chunks_size_def)

lemma fill_line_stuck:
  assumes "fill_line w n (c # cs) = ([], r)"
  shows "r = c # cs \<and> w < n + length c"
  using assms by (simp split: if_splits prod.splits)

lemma hlw_pos: "w < length c \<Longrightarrow> length (snd (handle_long_word w 0 c)) < length c"
  by (auto simp: handle_long_word_def Let_def split: option.splits)

lemma hlw_le: "length (snd (handle_long_word w n c)) \<le> length c"
  by (auto simp: handle_long_word_def Let_def split: option.splits)

lemma long_word_size: "chunks_size (snd (long_word w (l, r))) \<le> chunks_size r"
proof (cases r)
  case Nil
  then show ?thesis by (simp add: long_word_def)
next
  case (Cons c cs)
  then show ?thesis
    using hlw_le [of w "sum_list (map length l)" c]
    by (auto simp: long_word_def chunks_size_Cons split: prod.splits)
qed

lemma long_word_stuck:
  assumes "w < length c"
  shows "chunks_size (snd (long_word w ([], c # cs))) < chunks_size (c # cs)"
  using hlw_pos [OF assms]
  by (auto simp: long_word_def assms chunks_size_Cons split: prod.splits)

lemma drop_leading_size: "chunks_size (drop_leading st chunks) \<le> chunks_size chunks"
  by (cases chunks) (simp_all add: drop_leading_def chunks_size_Cons)

lemma next_line_decreases:
  assumes "chunks \<noteq> []"
  shows "chunks_size (snd (next_line w st chunks)) < chunks_size chunks"
proof -
  obtain c cs where chunks: "chunks = c # cs"
    using assms by (cases chunks) auto
  obtain l r where filled: "fill_line w 0 (drop_leading st chunks) = (l, r)"
    by (cases "fill_line w 0 (drop_leading st chunks)") auto
  have snd_eq: "snd (next_line w st chunks) = snd (long_word w (l, r))"
    by (simp add: next_line_def filled split: prod.splits)
  have app: "l @ r = drop_leading st chunks"
    using filled by (rule fill_line_app)
  then have size: "chunks_size l + chunks_size r = chunks_size (drop_leading st chunks)"
    by (simp add: chunks_size_append [symmetric])
  show ?thesis
  proof (cases "all_space c \<and> st")
    case True
    then have "chunks_size (drop_leading st chunks) < chunks_size chunks"
      by (simp add: drop_leading_def chunks chunks_size_Cons)
    with size long_word_size [of w l r] snd_eq show ?thesis by simp
  next
    case False
    then have same: "drop_leading st chunks = c # cs"
      by (auto simp: drop_leading_def chunks)
    show ?thesis
    proof (cases l)
      case (Cons a l')
      then have "0 < chunks_size l"
        by (simp add: chunks_size_Cons)
      with size long_word_size [of w l r] snd_eq same chunks show ?thesis by simp
    next
      case Nil
      then have "r = c # cs \<and> w < 0 + length c"
        using filled same fill_line_stuck [of w 0 c cs r] by simp
      then show ?thesis
        using long_word_stuck [of w c cs] snd_eq Nil chunks by simp
    qed
  qed
qed

function wrap_chunks :: "nat \<Rightarrow> string list \<Rightarrow> string list \<Rightarrow> string list" where
  \<comment> \<open>The outer loop \<^verbatim>\<open>while chunks:\<close>; \<open>chunks\<close> is in text order, its head the chunk
      the source pops next from its reversed stack. No indent, no \<^verbatim>\<open>max_lines\<close>.\<close>
  "wrap_chunks width chunks lines =
     (if chunks = [] then lines
      else (case next_line width (lines \<noteq> []) chunks of
              (cur_line, chunks') \<Rightarrow>
                wrap_chunks width chunks'
                  (if cur_line \<noteq> [] then lines @ [concat cur_line] else lines)))"
  by pat_completeness auto
termination
proof (relation "measure (\<lambda>(width, chunks, lines). chunks_size chunks)")
  show "wf (measure (\<lambda>(width, chunks, lines). chunks_size chunks))" by simp
next
  fix width :: nat and chunks lines :: "string list" and cur_line chunks' :: "string list"
  assume "chunks \<noteq> []" and "(cur_line, chunks') = next_line width (lines \<noteq> []) chunks"
  then have "chunks_size chunks' < chunks_size chunks"
    using next_line_decreases [of chunks width "lines \<noteq> []"] by (metis snd_conv)
  then show "((width, chunks', if cur_line \<noteq> [] then lines @ [concat cur_line] else lines),
              (width, chunks, lines)) \<in> measure (\<lambda>(width, chunks, lines). chunks_size chunks)"
    by simp
qed

declare wrap_chunks.simps [simp del]

definition wrap :: "string \<Rightarrow> int \<Rightarrow> error + string list" where
  \<comment> \<open>\<^verbatim>\<open>textwrap.wrap(text, width)\<close>; a width that is not positive raises \<^verbatim>\<open>ValueError\<close>.\<close>
  "wrap text width =
     (if width \<le> 0 then Inl ValueError
      else Inr (wrap_chunks (nat width) (split_chunks text) []))"

section \<open>The chunker\<close>

definition split_text :: "string \<Rightarrow> int \<Rightarrow> error + string list" where
  "split_text text max_chars = wrap text max_chars"


section \<open>The script\<close>

text \<open>
  Streamlit runs \<^verbatim>\<open>app.py\<close> from top to bottom on every interaction. One run is a
  function of the widget values of that interaction and of the session state the last
  run left; it returns the new session state, what it rendered and called, in order, and
  the exception that ended it, if one did. The page furniture (page configuration,
  sidebar, title, footer, columns, spinner) is not part of the trace.
\<close>

subsection \<open>Data\<close>

type_synonym float64 = "64 word"

record qa_result =
  answer :: string
  score :: float64

record upload =
  file_type :: string
  file_bytes :: "8 word list"

text \<open>
  The script's collaborators, taken as parameters: the three model pipelines, the PDF
  text extractor, the UTF-8 codec, and the floating-point operations of the Python
  runtime on binary64 values (given by their bit patterns). A pipeline call either
  raises or returns the field the script reads from its result.
\<close>

record externals =
  extract_text :: "8 word list \<Rightarrow> error + string"
  decode_utf8 :: "8 word list \<Rightarrow> error + string"
  summarizer :: "string \<Rightarrow> error + string"
  qa_pipeline :: "string \<Rightarrow> string \<Rightarrow> error + qa_result"
  question_generator :: "string \<Rightarrow> error + string"
  float_mul :: "float64 \<Rightarrow> int \<Rightarrow> float64"
  float_round :: "float64 \<Rightarrow> int \<Rightarrow> float64"
  float_str :: "float64 \<Rightarrow> string"

datatype event =
    Success string
  | Error string
  | Info string
  | Write string
  | Markdown string
  | Caption string
  | Text string
  | Subheader string
  | Text_input string "string option"
  | Button string
  | Call_summarizer string
  | Call_qa string string
  | Call_generator string

record widgets =
  uploaded_file :: "upload option"
  question :: string
  submit :: bool
  generate :: bool
  answer_input :: "nat \<Rightarrow> string"
  evaluate :: bool

record quiz =
  questions :: "string list"
  user_answers :: "string list"

text \<open>
  \<^verbatim>\<open>st.session_state\<close>: \<open>None\<close> while it has no key \<^verbatim>\<open>questions\<close>. The script sets
  \<^verbatim>\<open>questions\<close> and \<^verbatim>\<open>user_answers\<close> together and nothing else.
\<close>

type_synonym session_state = "quiz option"

type_synonym 's outcome = "'s \<times> event list \<times> error option"

definition and_then :: "'s outcome \<Rightarrow> ('s \<Rightarrow> 's outcome) \<Rightarrow> 's outcome" where
  \<comment> \<open>Statements in sequence: an exception ends the run, keeping the state and the
      trace reached.\<close>
  "and_then r f =
     (case r of
        (s, ev, Some e) \<Rightarrow> (s, ev, Some e)
      | (s, ev, None) \<Rightarrow> (case f s of (s', ev', err) \<Rightarrow> (s', ev @ ev', err)))"

subsection \<open>Upload\<close>

definition extract_file_text :: "externals \<Rightarrow> upload \<Rightarrow> error + string" where
  "extract_file_text x file =
     (if file_type file = ''application/pdf'' then extract_text x (file_bytes file)
      else if file_type file = ''text/plain'' then decode_utf8 x (file_bytes file)
      else Inr [])"

definition load_document :: "externals \<Rightarrow> widgets \<Rightarrow> error + string \<times> event list" where
  \<comment> \<open>lines 53 to 56: the document text and the message shown\<close>
  "load_document x w =
     (case uploaded_file w of
        None \<Rightarrow> Inr ([], [])
      | Some file \<Rightarrow>
          (case extract_file_text x file of
             Inl e \<Rightarrow> Inl e
           | Inr document_text \<Rightarrow>
               Inr (document_text,
                    [Success ''Document uploaded and text extracted successfully!''])))"

subsection \<open>Summary\<close>

fun summarize_chunks ::
  "externals \<Rightarrow> nat \<Rightarrow> string list \<Rightarrow> string \<Rightarrow> event list \<times> (error + string)" where
  \<comment> \<open>the loop of lines 69 to 71, from index \<open>i\<close>, with \<^verbatim>\<open>combined_summary\<close> so far\<close>
  "summarize_chunks x i [] combined_summary = ([], Inr combined_summary)"
| "summarize_chunks x i (chunk # chunks) combined_summary =
     (case summarizer x chunk of
        Inl e \<Rightarrow> ([Call_summarizer chunk], Inl e)
      | Inr summary_text \<Rightarrow>
          (case summarize_chunks x (i + 1) chunks
                  (combined_summary @ show_nat (i + 1) @ ''. '' @ summary_text
                     @ [newline, newline]) of
             (calls, result) \<Rightarrow> (Call_summarizer chunk # calls, result)))"

definition summary_section :: "externals \<Rightarrow> string \<Rightarrow> event list \<times> error option" where
  \<comment> \<open>lines 63 to 74\<close>
  "summary_section x document_text =
     (let header = [Subheader ''Auto-Generated Summary'',
                    Info ''Summarizing the main points of your uploaded document...'']
      in case split_text document_text 1000 of
           Inl e \<Rightarrow> (header, Some e)
         | Inr text_chunks \<Rightarrow>
             (case summarize_chunks x 0 (take 5 text_chunks) [] of
                (calls, Inl e) \<Rightarrow> (header @ calls, Some e)
              | (calls, Inr combined_summary) \<Rightarrow>
                  (header @ calls @ [Write (strip combined_summary), Markdown ''---''], None)))"

subsection \<open>Questions about the document\<close>

definition truncate_context :: "string \<Rightarrow> string" where
  \<comment> \<open>\<^verbatim>\<open>document_text[:2000]\<close>\<close>
  "truncate_context document_text = take 2000 document_text"

definition confidence :: "externals \<Rightarrow> float64 \<Rightarrow> string" where
  \<comment> \<open>\<^verbatim>\<open>round(score * 100, 2)\<close> as the f-string prints it\<close>
  "confidence x s = float_str x (float_round x (float_mul x s 100) 2)"

definition ask_section :: "externals \<Rightarrow> widgets \<Rightarrow> string \<Rightarrow> event list \<times> error option" where
  \<comment> \<open>lines 78 to 92\<close>
  "ask_section x w document_text =
     (let header = [Subheader ''Ask Anything About the Document'',
                    Markdown ''Type a question to get an answer based strictly on the document.'',
                    Text_input ''Ask your question'' None,
                    Button ''Get Answer'']
      in if submit w \<and> question w \<noteq> [] then
           (case qa_pipeline x (question w) (truncate_context document_text) of
              Inl e \<Rightarrow>
                (header @ [Call_qa (question w) (truncate_context document_text)], Some e)
            | Inr a \<Rightarrow>
                (header @ [Call_qa (question w) (truncate_context document_text),
                           Success (''Answer: '' @ answer a),
                           Caption (''Confidence Score: '' @ confidence x (score a) @ ''%''),
                           Markdown ''---''],
                 None))
         else (header @ [Markdown ''---''], None))"

subsection \<open>The quiz\<close>

definition generate_questions :: "string \<Rightarrow> quiz \<Rightarrow> quiz" where
  \<comment> \<open>lines 106 to 111, on the text the generator returned\<close>
  "generate_questions output st =
     (let questions_only = split_on newline (strip output);
          questions_only = map strip (filter (\<lambda>q. strip q \<noteq> []) questions_only);
          questions_only = (if questions_only = []
                            then [''Unable to generate clear questions.'']
                            else questions_only)
      in st\<lparr>questions := take 3 questions_only,
            user_answers := replicate (length (take 3 questions_only)) []\<rparr>)"

definition generate_handler :: "externals \<Rightarrow> string \<Rightarrow> quiz \<Rightarrow> quiz outcome" where
  \<comment> \<open>lines 104 to 111: the body of the Generate Questions button\<close>
  "generate_handler x document_text st =
     (let prompt = ''generate questions: '' @ take 1000 document_text
      in case question_generator x prompt of
           Inl e \<Rightarrow> (st, [Call_generator prompt], Some e)
         | Inr output \<Rightarrow> (generate_questions output st, [Call_generator prompt], None))"

fun capture_answers :: "widgets \<Rightarrow> nat \<Rightarrow> string list \<Rightarrow> quiz \<Rightarrow> quiz outcome" where
  \<comment> \<open>the loop of lines 114 to 116, from index \<open>i\<close>, over the questions left; an index
      past the end of \<^verbatim>\<open>user_answers\<close> raises \<^verbatim>\<open>IndexError\<close>\<close>
  "capture_answers w i [] st = (st, [], None)"
| "capture_answers w i (q # qs) st =
     and_then
       (if i < length (user_answers st)
        then (st\<lparr>user_answers := (user_answers st)[i := answer_input w i]\<rparr>,
              [Text (''Q'' @ show_nat (i + 1) @ '': '' @ q),
               Text_input ''Your Answer'' (Some (''ans_'' @ show_nat i))],
              None)
        else (st,
              [Text (''Q'' @ show_nat (i + 1) @ '': '' @ q),
               Text_input ''Your Answer'' (Some (''ans_'' @ show_nat i))],
              Some IndexError))
       (capture_answers w (i + 1) qs)"

definition verdict :: "string \<Rightarrow> string \<Rightarrow> event" where
  \<comment> \<open>lines 129 to 132\<close>
  "verdict user_ans correct =
     (if lower (strip user_ans) = lower (strip correct) then Success ''Correct''
      else Error ''Incorrect'')"

fun evaluate_answers ::
  "externals \<Rightarrow> string \<Rightarrow> nat \<Rightarrow> (string \<times> string) list \<Rightarrow> event list \<times> error option" where
  \<comment> \<open>the loop of lines 121 to 134, from index \<open>i\<close>, over the pairs left\<close>
  "evaluate_answers x document_text i [] = ([], None)"
| "evaluate_answers x document_text i ((q, user_ans) # pairs) =
     (case qa_pipeline x q (truncate_context document_text) of
        Inl e \<Rightarrow> ([Call_qa q (truncate_context document_text)], Some e)
      | Inr result \<Rightarrow>
          (case evaluate_answers x document_text (i + 1) pairs of
             (shown, err) \<Rightarrow>
               ([Call_qa q (truncate_context document_text),
                 Markdown (''*Q'' @ show_nat (i + 1) @ '': '' @ q @ ''*''),
                 Write (''Your Answer: '' @ user_ans),
                 Write (''Correct Answer: '' @ answer result),
                 verdict user_ans (answer result),
                 Caption (''Confidence Score: '' @ confidence x (score result) @ ''%''),
                 Markdown ''---'']
                @ shown,
                err)))"

definition evaluate_handler :: "externals \<Rightarrow> string \<Rightarrow> quiz \<Rightarrow> quiz outcome" where
  \<comment> \<open>lines 120 to 134: the body of the Evaluate Answers button\<close>
  "evaluate_handler x document_text st =
     (case evaluate_answers x document_text 0 (zip (questions st) (user_answers st)) of
        (shown, err) \<Rightarrow> (st, Subheader ''Evaluation Results'' # shown, err))"

definition answers_complete :: "quiz \<Rightarrow> bool" where
  \<comment> \<open>\<^verbatim>\<open>all(ans.strip() for ans in st.session_state.user_answers)\<close>\<close>
  "answers_complete st = list_all (\<lambda>ans. strip ans \<noteq> []) (user_answers st)"

definition init_quiz :: "session_state \<Rightarrow> quiz" where
  \<comment> \<open>lines 99 to 101\<close>
  "init_quiz sess =
     (case sess of None \<Rightarrow> \<lparr>questions = [], user_answers = []\<rparr> | Some st \<Rightarrow> st)"

definition quiz_section :: "externals \<Rightarrow> widgets \<Rightarrow> string \<Rightarrow> session_state \<Rightarrow> quiz outcome" where
  \<comment> \<open>lines 96 to 134\<close>
  "quiz_section x w document_text sess =
     and_then
       (and_then
          (init_quiz sess,
           [Subheader ''Challenge Me: Auto Quiz'',
            Markdown ''Click below to generate 3 logic/comprehension questions based on your document.'',
            Button ''Generate Questions''],
           None)
          (\<lambda>st. if generate w then generate_handler x document_text st else (st, [], None)))
       (\<lambda>st. if questions st \<noteq> [] then
               and_then (capture_answers w 0 (questions st) st)
                 (\<lambda>st. if answers_complete st then
                         and_then (st, [Button ''Evaluate Answers''], None)
                           (\<lambda>st. if evaluate w then evaluate_handler x document_text st
                                 else (st, [], None))
                       else (st, [], None))
             else (st, [], None))"

subsection \<open>One run of the script\<close>

definition sections :: "externals \<Rightarrow> widgets \<Rightarrow> string \<Rightarrow> session_state \<Rightarrow> session_state outcome" where
  \<comment> \<open>lines 62 to 134: three blocks, each under \<^verbatim>\<open>if document_text:\<close>\<close>
  "sections x w document_text sess =
     and_then
       (and_then
          (if document_text \<noteq> []
           then (case summary_section x document_text of (ev, err) \<Rightarrow> (sess, ev, err))
           else (sess, [], None))
          (\<lambda>sess. if document_text \<noteq> []
                  then (case ask_section x w document_text of (ev, err) \<Rightarrow> (sess, ev, err))
                  else (sess, [], None)))
       (\<lambda>sess. if document_text \<noteq> []
               then (case quiz_section x w document_text sess of
                       (st, ev, err) \<Rightarrow> (Some st, ev, err))
               else (sess, [], None))"

definition run_script :: "externals \<Rightarrow> widgets \<Rightarrow> session_state \<Rightarrow> session_state outcome" where
  "run_script x w sess =
     (case load_document x w of
        Inl e \<Rightarrow> (sess, [], Some e)
      | Inr (document_text, shown) \<Rightarrow> and_then (sess, shown, None) (sections x w document_text))"

inductive reachable :: "session_state \<Rightarrow> bool" where
  \<comment> \<open>the session states of a session: none at first, then what each run leaves, with
      any widget values and any behaviour of the collaborators\<close>
  start: "reachable None"
| run: "reachable sess \<Longrightarrow> run_script x w sess = (sess', ev, err) \<Longrightarrow> reachable sess'"

definition trace :: "'s outcome \<Rightarrow> event list" where
  "trace r = fst (snd r)"

definition qa_context_ok :: "string \<Rightarrow> event \<Rightarrow> bool" where
  \<comment> \<open>a question-answering call is given the truncated document as context\<close>
  "qa_context_ok doc e = (case e of Call_qa q c \<Rightarrow> c = truncate_context doc | _ \<Rightarrow> True)"

subsection \<open>Floating-point operations of the runtime\<close>

text \<open>
  A model of the three operations of CPython on floats that the script uses, on binary64
  values given by their bit patterns: the product with an int, \<^verbatim>\<open>round\<close> to a number of
  decimal places, and \<^verbatim>\<open>str\<close>, which prints the shortest decimal that reads back as the
  value. Where Python raises \<^verbatim>\<open>OverflowError\<close> (an int beyond the range of floats, a rounded
  value beyond it) the model gives infinity; the script multiplies by 100 and rounds to 2
  places, where neither happens. The model instantiates the parameters of
  \<^typ>\<open>externals\<close> in the session below.
\<close>

function pow :: "int \<Rightarrow> int \<Rightarrow> int" where
  \<comment> \<open>\<open>b\<close> to the power \<open>k\<close> by squaring; 1 for an exponent that is not positive\<close>
  "pow b k =
     (if k \<le> 0 then 1
      else if even k then pow (b * b) (k div 2)
      else b * pow (b * b) (k div 2))"
  by pat_completeness auto
termination
  by (relation "measure (\<lambda>(b, k). nat k)") auto

declare pow.simps [simp del]

function bit_length :: "int \<Rightarrow> int" where
  \<comment> \<open>the number of binary digits of a positive integer\<close>
  "bit_length n = (if n \<le> 0 then 0 else 1 + bit_length (n div 2))"
  by pat_completeness auto
termination
  by (relation "measure nat") auto

declare bit_length.simps [simp del]

function show_int :: "int \<Rightarrow> string" where
  \<comment> \<open>the decimal digits of a non-negative integer\<close>
  "show_int n =
     (if n < 10 then [''0123456789'' ! nat n]
      else show_int (n div 10) @ [''0123456789'' ! nat (n mod 10)])"
  by pat_completeness auto
termination
  by (relation "measure nat") auto

declare show_int.simps [simp del]

definition float_exponent :: "float64 \<Rightarrow> int" where
  "float_exponent f = uint (take_bit 11 (drop_bit 52 f))"

definition float_fraction :: "float64 \<Rightarrow> int" where
  "float_fraction f = uint (take_bit 52 f)"

definition float_negative :: "float64 \<Rightarrow> bool" where
  "float_negative f = bit f 63"

definition float_finite :: "float64 \<Rightarrow> bool" where
  "float_finite f = (float_exponent f \<noteq> 2047)"

definition float_nan :: "float64 \<Rightarrow> bool" where
  "float_nan f = (float_exponent f = 2047 \<and> float_fraction f \<noteq> 0)"

definition significand :: "float64 \<Rightarrow> int" where
  \<comment> \<open>a finite value has the magnitude \<open>significand * 2 ^ scale\<close>\<close>
  "significand f =
     (if float_exponent f = 0 then float_fraction f else pow 2 52 + float_fraction f)"

definition scale :: "float64 \<Rightarrow> int" where
  "scale f = (if float_exponent f = 0 then - 1074 else float_exponent f - 1075)"

definition round_half_even :: "int \<Rightarrow> int \<Rightarrow> int" where
  \<comment> \<open>the integer nearest to \<open>n / d\<close>, the even one of two that are equally near\<close>
  "round_half_even n d =
     (let q = n div d; r = n mod d
      in if 2 * r < d then q
         else if d < 2 * r then q + 1
         else if even q then q else q + 1)"

definition floor_log2 :: "int \<Rightarrow> int \<Rightarrow> int" where
  \<comment> \<open>the exponent \<open>k\<close> with \<open>2 ^ k \<le> n / d < 2 ^ (k + 1)\<close>, for positive \<open>n\<close> and \<open>d\<close>\<close>
  "floor_log2 n d =
     (let k = bit_length n - bit_length d
      in if (if 0 \<le> k then d * pow 2 k \<le> n else d \<le> n * pow 2 (- k)) then k else k - 1)"

definition with_sign :: "bool \<Rightarrow> int \<Rightarrow> float64" where
  "with_sign negative bits = (if negative then word_of_int (pow 2 63 + bits) else word_of_int bits)"

definition infinity_bits :: int where
  "infinity_bits = 2047 * pow 2 52"

definition to_binary64 :: "bool \<Rightarrow> int \<Rightarrow> int \<Rightarrow> float64" where
  \<comment> \<open>The binary64 nearest to the fraction \<open>n / d\<close> with the given sign, ties to even:
      53 significant bits from exponent -1022 on, the subnormal grid below, infinity
      on overflow.\<close>
  "to_binary64 negative n d =
     (if n \<le> 0 then with_sign negative 0
      else
        let e = max (floor_log2 n d) (- 1022);
            p = e - 52;
            mant = (if p < 0 then round_half_even (n * pow 2 (- p)) d
                    else round_half_even n (d * pow 2 p));
            bits = (e + 1022) * pow 2 52 + mant
        in with_sign negative (min bits infinity_bits))"

definition nan_bits :: float64 where
  "nan_bits = 0x7FF8000000000000"

definition binary64_mul :: "float64 \<Rightarrow> float64 \<Rightarrow> float64" where
  \<comment> \<open>the product of two binary64 values, correctly rounded; every NaN is the quiet one\<close>
  "binary64_mul f g =
     (let negative = (float_negative f \<noteq> float_negative g)
      in if float_nan f \<or> float_nan g then nan_bits
         else if \<not> float_finite f \<or> \<not> float_finite g then
           (if (float_finite f \<and> significand f = 0) \<or> (float_finite g \<and> significand g = 0)
            then nan_bits else with_sign negative infinity_bits)
         else
           let m = significand f * significand g; e = scale f + scale g
           in if 0 \<le> e then to_binary64 negative (m * pow 2 e) 1
              else to_binary64 negative m (pow 2 (- e)))"

definition binary64_of_int :: "int \<Rightarrow> float64" where
  "binary64_of_int n = to_binary64 (n < 0) \<bar>n\<bar> 1"

definition python_float_mul :: "float64 \<Rightarrow> int \<Rightarrow> float64" where
  \<comment> \<open>\<^verbatim>\<open>f * n\<close> for a float and an int\<close>
  "python_float_mul f n = binary64_mul f (binary64_of_int n)"

definition python_round :: "float64 \<Rightarrow> int \<Rightarrow> float64" where
  \<comment> \<open>\<^verbatim>\<open>round(f, ndigits)\<close>: the decimal with that many places nearest to the exact value
      of \<open>f\<close>, ties to even, read back as a binary64\<close>
  "python_round f ndigits =
     (if \<not> float_finite f \<or> 323 < ndigits then f
      else if ndigits < - 308 then with_sign (float_negative f) 0
      else
        let m = significand f; e = scale f;
            n = (if 0 \<le> e then m * pow 2 e else m) * pow 10 ndigits;
            d = (if 0 \<le> e then 1 else pow 2 (- e)) * pow 10 (- ndigits);
            k = round_half_even n d
        in if 0 \<le> ndigits then to_binary64 (float_negative f) k (pow 10 ndigits)
           else to_binary64 (float_negative f) (k * pow 10 (- ndigits)) 1)"

function log10_up :: "int \<Rightarrow> int \<Rightarrow> int" where
  "log10_up n d = (if 0 < d \<and> 10 * d \<le> n then 1 + log10_up n (10 * d) else 0)"
  by pat_completeness auto
termination
  by (relation "measure (\<lambda>(n, d). nat (n - d))") auto

function log10_down :: "int \<Rightarrow> int \<Rightarrow> int" where
  "log10_down n d = (if 0 < n \<and> n < d then 1 + log10_down (10 * n) d else 0)"
  by pat_completeness auto
termination
  by (relation "measure (\<lambda>(n, d). nat (d - n))") auto

declare log10_up.simps [simp del]
declare log10_down.simps [simp del]

definition floor_log10 :: "int \<Rightarrow> int \<Rightarrow> int" where
  \<comment> \<open>the exponent \<open>k\<close> with \<open>10 ^ k \<le> n / d < 10 ^ (k + 1)\<close>, for positive \<open>n\<close> and \<open>d\<close>\<close>
  "floor_log10 n d = (if d \<le> n then log10_up n d else - log10_down n d)"

definition magnitude :: "float64 \<Rightarrow> float64" where
  "magnitude f = take_bit 63 f"

definition reads_back :: "float64 \<Rightarrow> int \<Rightarrow> int \<Rightarrow> bool" where
  \<comment> \<open>the decimal n/d is read as a binary64 of the magnitude of f\<close>
  "reads_back f n d = (to_binary64 False n d = magnitude f)"

fun shortest_digits :: "nat \<Rightarrow> float64 \<Rightarrow> int \<Rightarrow> int \<Rightarrow> int \<Rightarrow> int \<Rightarrow> int \<times> int" where
  \<comment> \<open>For the magnitude n/d of f, of decimal exponent k: the digits D and the exponent u
      of the shortest decimal D * 10^u that reads back as f, the nearest to f among the
      shortest. The first argument bounds the number of digits tried, from len on.\<close>
  "shortest_digits 0 f n d k len = (0, 0)"
| "shortest_digits (Suc fuel) f n d k len =
     (let u = k - len + 1;
          un = pow 10 u;
          ud = pow 10 (- u);
          lo = (n * ud) div (d * un);
          below = reads_back f (lo * un) ud;
          above = reads_back f ((lo + 1) * un) ud;
          nearer_below = (2 * n * ud < (2 * lo + 1) * un * d
                          \<or> (2 * n * ud = (2 * lo + 1) * un * d \<and> even lo))
      in if below \<and> (\<not> above \<or> nearer_below) then (lo, u)
         else if above then (lo + 1, u)
         else shortest_digits fuel f n d k (len + 1))"

function strip_zeros :: "int \<times> int \<Rightarrow> int \<times> int" where
  \<comment> \<open>the same decimal without zeros at the end of its digits\<close>
  "strip_zeros (digits, u) =
     (if 0 < digits \<and> digits mod 10 = 0 then strip_zeros (digits div 10, u + 1) else (digits, u))"
  by pat_completeness auto
termination
  by (relation "measure (\<lambda>(digits, u). nat digits)") auto

declare strip_zeros.simps [simp del]

definition exponent_text :: "int \<Rightarrow> string" where
  \<comment> \<open>the exponent after \<^verbatim>\<open>e\<close>: a sign and at least two digits\<close>
  "exponent_text e =
     (if e < 0 then ''-'' else ''+'')
     @ (if \<bar>e\<bar> < 10 then ''0'' else []) @ show_int \<bar>e\<bar>"

definition format_digits :: "string \<Rightarrow> int \<Rightarrow> string" where
  \<comment> \<open>the digits ds of a value \<open>0.ds * 10^decpt\<close> the way \<^verbatim>\<open>repr\<close> lays them out\<close>
  "format_digits ds decpt =
     (if decpt \<le> - 4 \<or> 16 < decpt then
        take 1 ds @ (if 1 < length ds then ''.'' @ drop 1 ds else [])
        @ ''e'' @ exponent_text (decpt - 1)
      else if decpt \<le> 0 then ''0.'' @ replicate (nat (- decpt)) CHR ''0'' @ ds
      else if int (length ds) \<le> decpt
      then ds @ replicate (nat decpt - length ds) CHR ''0'' @ ''.0''
      else take (nat decpt) ds @ ''.'' @ drop (nat decpt) ds)"

definition python_float_str :: "float64 \<Rightarrow> string" where
  \<comment> \<open>\<^verbatim>\<open>str(f)\<close> and \<^verbatim>\<open>repr(f)\<close> of a float\<close>
  "python_float_str f =
     (if float_nan f then ''nan''
      else (if float_negative f then ''-'' else [])
        @ (if \<not> float_finite f then ''inf''
           else if significand f = 0 then ''0.0''
           else
             let m = significand f; e = scale f;
                 n = (if 0 \<le> e then m * pow 2 e else m);
                 d = (if 0 \<le> e then 1 else pow 2 (- e));
                 k = floor_log10 n d
             in case strip_zeros (shortest_digits 17 f n d k 1) of
                  (digits, u) \<Rightarrow>
                    format_digits (show_int digits) (u + int (length (show_int digits)))))"

subsection \<open>A session to run\<close>

text \<open>
  Collaborators and widget values for the scenario of the specification: the document
  ``The sky is blue. Water is wet.'', a generator that returns two question lines, and a
  question-answering pipeline that answers ``blue'' with the score 0.91 (the binary64
  nearest to it, of bit pattern 3FED1EB851EB851F).
\<close>

definition demo_externals :: externals where
  "demo_externals =
     \<lparr>extract_text = (\<lambda>b. Inl PdfError),
      decode_utf8 = (\<lambda>b. Inr ''The sky is blue. Water is wet.''),
      summarizer = (\<lambda>c. Inr ''Sky and water.''),
      qa_pipeline = (\<lambda>q c. Inr \<lparr>answer = ''blue'', score = 0x3FED1EB851EB851F\<rparr>),
      question_generator =
        (\<lambda>p. Inr (''What color is the sky?'' @ [newline] @ ''What is wet?'' @ [newline])),
      float_mul = python_float_mul,
      float_round = python_round,
      float_str = python_float_str\<rparr>"

definition demo_widgets :: widgets where
  "demo_widgets =
     \<lparr>uploaded_file = Some \<lparr>file_type = ''text/plain'', file_bytes = []\<rparr>,
      question = ''What?'',
      submit = True,
      generate = True,
      answer_input = (\<lambda>i. if i = 0 then ''Blue'' else ''rain''),
      evaluate = True\<rparr>"

definition lengths_agree :: "quiz \<Rightarrow> bool" where
  \<comment> \<open>the invariant of the quiz: as many answer slots as questions\<close>
  "lengths_agree st = (length (questions st) = length (user_answers st))"

definition quiz_inv :: "session_state \<Rightarrow> bool" where
  \<comment> \<open>the invariant on a session state: it holds once the quiz state is initialised\<close>
  "quiz_inv sess = (case sess of None \<Rightarrow> True | Some st \<Rightarrow> lengths_agree st)"

definition blank :: "string \<Rightarrow> bool" where
  \<comment> \<open>a line that is empty or holds whitespace only\<close>
  "blank l = list_all is_space l"

definition nonblank_lines :: "string \<Rightarrow> string list" where
  \<comment> \<open>the lines of a text, in order, without the blank ones\<close>
  "nonblank_lines output = filter (\<lambda>l. \<not> blank l) (split_on newline output)"

definition gate_event :: "event \<Rightarrow> bool" where
  \<comment> \<open>what only the evaluation block renders: its button and its heading\<close>
  "gate_event e = (e = Button ''Evaluate Answers'' \<or> e = Subheader ''Evaluation Results'')"

definition gate_closed :: "quiz outcome \<Rightarrow> bool" where
  \<comment> \<open>the quiz section ended before the evaluation block, or did not enter it\<close>
  "gate_closed r =
     (case r of (st, ev, err) \<Rightarrow>
        (\<forall>e \<in> set ev. \<not> gate_event e)
        \<and> (err = None \<longrightarrow> questions st = [] \<or> \<not> answers_complete st))"

definition gate_open :: "bool \<Rightarrow> quiz outcome \<Rightarrow> bool" where
  \<comment> \<open>the quiz section offered evaluation, and ran it only if the button was pressed\<close>
  "gate_open clicked r =
     (case r of (st, ev, err) \<Rightarrow>
        Button ''Evaluate Answers'' \<in> set ev \<and> questions st \<noteq> [] \<and> answers_complete st
        \<and> (Subheader ''Evaluation Results'' \<in> set ev \<longrightarrow> clicked))"

definition session_gate_closed :: "bool \<Rightarrow> session_state outcome \<Rightarrow> bool" where
  \<comment> \<open>\<open>gate_closed\<close> for a whole run; \<open>loaded\<close> says that a document with text is loaded\<close>
  "session_gate_closed loaded r =
     (case r of (s, ev, err) \<Rightarrow>
        (\<forall>e \<in> set ev. \<not> gate_event e)
        \<and> (loaded \<and> err = None \<longrightarrow>
             (case s of None \<Rightarrow> False
              | Some st \<Rightarrow> questions st = [] \<or> \<not> answers_complete st)))"

definition session_gate_open :: "bool \<Rightarrow> session_state outcome \<Rightarrow> bool" where
  \<comment> \<open>\<open>gate_open\<close> for a whole run\<close>
  "session_gate_open clicked r =
     (case r of (s, ev, err) \<Rightarrow>
        (case s of None \<Rightarrow> False
         | Some st \<Rightarrow>
             Button ''Evaluate Answers'' \<in> set ev \<and> questions st \<noteq> [] \<and> answers_complete st
             \<and> (Subheader ''Evaluation Results'' \<in> set ev \<longrightarrow> clicked)))"

fun join :: "string \<Rightarrow> string list \<Rightarrow> string" where
  \<comment> \<open>\<^verbatim>\<open>sep.join(strings)\<close>: the strings with the separator between them\<close>
  "join sep [] = []"
| "join sep [s] = s"
| "join sep (s # t # ts) = s @ sep @ join sep (t # ts)"

definition labelled :: "nat \<Rightarrow> string \<Rightarrow> string" where
  \<comment> \<open>the summary of the chunk of index \<open>i\<close> behind its ordinal label, which counts from 1\<close>
  "labelled i summary_text = show_nat (i + 1) @ ''. '' @ summary_text"

fun summarizer_calls :: "event list \<Rightarrow> string list" where
  \<comment> \<open>the chunks given to the summarizer in a trace, in call order\<close>
  "summarizer_calls [] = []"
| "summarizer_calls (Call_summarizer chunk # ev) = chunk # summarizer_calls ev"
| "summarizer_calls (e # ev) = summarizer_calls ev"



fun weave :: "string list \<Rightarrow> string list \<Rightarrow> string" where
  \<comment> \<open>the segments in order, with a gap before each of them and one after the last\<close>
  "weave (g # gaps) (s # segments) = g @ s @ weave gaps segments"
| "weave gaps [] = concat gaps"
| "weave [] segments = concat segments"

definition normal_piece :: "char \<Rightarrow> string \<Rightarrow> bool" where
  \<comment> \<open>what the normalisation of whitespace makes of one character: a tab becomes 1 to 8
      spaces, another whitespace character of the wrapper one space, and any other
      character stays\<close>
  "normal_piece c piece =
     (if c = CHR 0x09
      then 1 \<le> length piece \<and> length piece \<le> 8 \<and> piece = replicate (length piece) CHR '' ''
      else if tw_whitespace c then piece = '' ''
      else piece = [c])"

section \<open>Properties\<close>

subsection \<open>Traces of sequenced statements\<close>

lemma and_then_trace:
  assumes "\<forall>e \<in> set (trace r). P e" and "\<And>s. \<forall>e \<in> set (trace (f s)). P e"
  shows "\<forall>e \<in> set (trace (and_then r f)). P e"
proof -
  obtain s ev err where r: "r = (s, ev, err)" by (cases r) auto
  show ?thesis
  proof (cases err)
    case None
    obtain s' ev' err' where f: "f s = (s', ev', err')" by (cases "f s") auto
    have "\<forall>e \<in> set ev'. P e" using assms(2) [of s] f by (simp add: trace_def)
    then show ?thesis using assms(1) r None f by (auto simp: and_then_def trace_def)
  next
    case (Some e)
    then show ?thesis using assms(1) r by (simp add: and_then_def trace_def)
  qed
qed

subsection \<open>The context of question answering\<close>

lemma summarize_chunks_ok: "\<forall>e \<in> set (fst (summarize_chunks x i chunks acc)). qa_context_ok doc e"
proof (induction chunks arbitrary: i acc)
  case Nil
  then show ?case by simp
next
  case (Cons chunk chunks)
  show ?case
  proof (cases "summarizer x chunk")
    case (Inl e)
    then show ?thesis by (simp add: qa_context_ok_def)
  next
    case (Inr t)
    obtain calls res where r:
      "summarize_chunks x (i + 1) chunks (acc @ show_nat (i + 1) @ ''. '' @ t @ [newline, newline]) = (calls, res)"
      by (cases "summarize_chunks x (i + 1) chunks (acc @ show_nat (i + 1) @ ''. '' @ t @ [newline, newline])") auto
    have "\<forall>e \<in> set calls. qa_context_ok doc e"
      using Cons [of "i + 1" "acc @ show_nat (i + 1) @ ''. '' @ t @ [newline, newline]"] r by simp
    then show ?thesis
      using Inr r by (simp add: qa_context_ok_def)
  qed
qed

lemma summary_section_ok: "\<forall>e \<in> set (fst (summary_section x doc)). qa_context_ok doc' e"
proof (cases "split_text doc 1000")
  case (Inl err)
  then show ?thesis by (simp add: summary_section_def qa_context_ok_def)
next
  case (Inr text_chunks)
  obtain calls res where r: "summarize_chunks x 0 (take 5 text_chunks) [] = (calls, res)"
    by (cases "summarize_chunks x 0 (take 5 text_chunks) []") auto
  have "\<forall>e \<in> set calls. qa_context_ok doc' e"
    using summarize_chunks_ok [where doc = doc' and x = x and i = 0 and acc = "[]" and chunks = "take 5 text_chunks"]
    by (simp add: r)
  then show ?thesis
    using Inr r by (cases res) (auto simp: summary_section_def qa_context_ok_def)
qed

lemma ask_section_ok: "\<forall>e \<in> set (fst (ask_section x w doc)). qa_context_ok doc e"
  by (auto simp: ask_section_def qa_context_ok_def Let_def split: sum.splits)

lemma evaluate_answers_ok: "\<forall>e \<in> set (fst (evaluate_answers x doc i pairs)). qa_context_ok doc e"
proof (induction pairs arbitrary: i)
  case Nil
  then show ?case by simp
next
  case (Cons p pairs)
  obtain q u where p: "p = (q, u)" by (cases p) auto
  obtain shown err where r: "evaluate_answers x doc (Suc i) pairs = (shown, err)"
    by (cases "evaluate_answers x doc (Suc i) pairs") auto
  have "\<forall>e \<in> set shown. qa_context_ok doc e"
    using Cons [of "Suc i"] r by simp
  then show ?case
    by (cases "qa_pipeline x q (truncate_context doc)")
       (simp_all add: p r qa_context_ok_def verdict_def)
qed

lemma capture_answers_ok: "\<forall>e \<in> set (trace (capture_answers w i qs st)). qa_context_ok doc e"
proof (induction qs arbitrary: i st)
  case Nil
  then show ?case by (simp add: trace_def)
next
  case (Cons q qs)
  show ?case
    unfolding capture_answers.simps
  proof (rule and_then_trace)
    show "\<forall>e\<in>set (trace (capture_answers w (i + 1) qs s)). qa_context_ok doc e" for s
      by (rule Cons)
  qed (simp add: trace_def qa_context_ok_def)
qed


lemma quiz_section_ok: "\<forall>e \<in> set (trace (quiz_section x w doc sess)). qa_context_ok doc e"
  unfolding quiz_section_def
  apply (intro and_then_trace)
  apply (auto simp: trace_def qa_context_ok_def)[1]
  apply (auto simp: trace_def qa_context_ok_def generate_handler_def Let_def split: sum.splits)[1]
  subgoal for s
    apply (cases "questions s \<noteq> []")
    apply simp_all
    apply (intro and_then_trace capture_answers_ok)
    subgoal for s'
      apply (cases "answers_complete s'")
      apply simp_all
      apply (intro and_then_trace)
      apply (auto simp: trace_def qa_context_ok_def)[1]
      subgoal for s''
        using evaluate_answers_ok [of x doc 0 "zip (questions s'') (user_answers s'')"]
        by (cases "evaluate_answers x doc 0 (zip (questions s'') (user_answers s''))")
           (simp add: trace_def evaluate_handler_def qa_context_ok_def)
      apply (auto simp: trace_def)
      done
    apply (auto simp: trace_def)
    done
  done


lemma sections_ok: "\<forall>e \<in> set (trace (sections x w doc sess)). qa_context_ok doc e"
  unfolding sections_def
proof (intro and_then_trace)
  show "\<forall>e\<in>set (trace (if doc \<noteq> [] then (case summary_section x doc of (ev, err) \<Rightarrow> (sess, ev, err))
                           else (sess, [], None))). qa_context_ok doc e"
    using summary_section_ok [of x doc doc]
    by (cases "summary_section x doc") (simp add: trace_def)
next
  fix s :: session_state
  show "\<forall>e\<in>set (trace (if doc \<noteq> [] then (case ask_section x w doc of (ev, err) \<Rightarrow> (s, ev, err))
                           else (s, [], None))). qa_context_ok doc e"
    using ask_section_ok [of x w doc]
    by (cases "ask_section x w doc") (simp add: trace_def)
next
  fix s :: session_state
  show "\<forall>e\<in>set (trace (if doc \<noteq> [] then (case quiz_section x w doc s of (st, ev, err) \<Rightarrow> (Some st, ev, err))
                           else (s, [], None))). qa_context_ok doc e"
    using quiz_section_ok [of x w doc s]
    by (cases "quiz_section x w doc s") (simp add: trace_def)
qed

text \<open>
  Claim C3. For every document string \<open>d\<close> the context truncator returns exactly the
  first \<open>min (length d) 2000\<close> characters of \<open>d\<close>, and the context of every
  question-answering call of a run, from the question box or from the quiz evaluation,
  is the truncated text of the loaded document, so it has at most 2000 characters.
\<close>

theorem context_truncator:
  "truncate_context d = take (min (length d) 2000) d
   \<and> length (truncate_context d) = min (length d) 2000
   \<and> (\<forall>q c. Call_qa q c \<in> set (trace (run_script x w sess)) \<longrightarrow>
         length c \<le> 2000
         \<and> (\<exists>doc shown. load_document x w = Inr (doc, shown) \<and> c = truncate_context doc))"
proof (intro conjI allI impI)
  show "truncate_context d = take (min (length d) 2000) d"
    by (simp add: truncate_context_def min_def)
  show "length (truncate_context d) = min (length d) 2000"
    by (simp add: truncate_context_def)
next
  fix q c
  assume call: "Call_qa q c \<in> set (trace (run_script x w sess))"
  have "\<exists>doc shown. load_document x w = Inr (doc, shown) \<and> c = truncate_context doc"
  proof (cases "load_document x w")
    case (Inl e)
    with call show ?thesis by (simp add: run_script_def trace_def)
  next
    case (Inr loaded)
    obtain doc shown where loaded: "loaded = (doc, shown)" by (cases loaded) auto
    have shown: "\<forall>e \<in> set shown. qa_context_ok doc e"
      using Inr loaded
      by (auto simp: load_document_def qa_context_ok_def split: option.splits sum.splits)
    have "\<forall>e \<in> set (trace (and_then (sess, shown, None) (sections x w doc))). qa_context_ok doc e"
      by (rule and_then_trace) (simp_all add: trace_def shown sections_ok [unfolded trace_def])
    then have "qa_context_ok doc (Call_qa q c)"
      using call Inr loaded by (simp add: run_script_def)
    then show ?thesis
      using Inr loaded by (simp add: qa_context_ok_def)
  qed
  then show "length c \<le> 2000" by (auto simp: truncate_context_def)
  show "\<exists>doc shown. load_document x w = Inr (doc, shown) \<and> c = truncate_context doc" by fact
qed

subsection \<open>What evaluation leaves unchanged\<close>

lemma fst_and_then:
  "fst (and_then r f) = (case r of (s, ev, Some e) \<Rightarrow> s | (s, ev, None) \<Rightarrow> fst (f s))"
  by (simp add: and_then_def split: prod.splits option.splits)

lemma capture_answers_evaluate [simp]:
  "capture_answers (w\<lparr>evaluate := b\<rparr>) i qs st = capture_answers w i qs st"
proof (induction qs arbitrary: i st)
  case Nil
  then show ?case by simp
next
  case (Cons q qs)
  have "capture_answers (w\<lparr>evaluate := b\<rparr>) (i + 1) qs = capture_answers w (i + 1) qs"
    by (rule ext) (rule Cons)
  then show ?case by simp
qed

lemma load_document_evaluate [simp]: "load_document x (w\<lparr>evaluate := b\<rparr>) = load_document x w"
  by (simp add: load_document_def)

lemma ask_section_evaluate [simp]: "ask_section x (w\<lparr>evaluate := b\<rparr>) doc = ask_section x w doc"
  by (simp add: ask_section_def Let_def cong: if_cong sum.case_cong)

lemma fst_evaluate_handler: "fst (evaluate_handler x doc st) = st"
  by (simp add: evaluate_handler_def split: prod.splits)

lemma quiz_section_evaluate:
  "fst (quiz_section x (w\<lparr>evaluate := b\<rparr>) doc sess) = fst (quiz_section x w doc sess)"
  by (simp add: quiz_section_def fst_and_then fst_evaluate_handler split: prod.splits option.splits)

lemma sections_evaluate:
  "fst (sections x (w\<lparr>evaluate := b\<rparr>) doc sess) = fst (sections x w doc sess)"
  using quiz_section_evaluate [where x = x and w = w and b = b and doc = doc]
  apply (simp add: sections_def fst_and_then split: prod.splits option.splits)
  apply (metis fst_conv)
  done

text \<open>
  Claim C10. The Evaluate operation does not modify the quiz state: the handler of the
  Evaluate Answers button returns the state it was given, with the same questions and the
  same user answers, and a run leaves the same session state whether the button was
  pressed or not. Evaluation only adds to what the run shows.
\<close>

theorem evaluate_frame:
  "fst (evaluate_handler x document_text st) = st
   \<and> questions (fst (evaluate_handler x document_text st)) = questions st
   \<and> user_answers (fst (evaluate_handler x document_text st)) = user_answers st
   \<and> fst (run_script x (w\<lparr>evaluate := True\<rparr>) sess) = fst (run_script x (w\<lparr>evaluate := False\<rparr>) sess)"
  using sections_evaluate [where x = x and w = w and b = True and sess = sess]
    sections_evaluate [where x = x and w = w and b = False and sess = sess]
  by (simp add: fst_evaluate_handler run_script_def fst_and_then split: sum.splits prod.splits)

subsection \<open>Files of another type\<close>

text \<open>
  Claim C9. For an uploaded file whose declared media type is neither
  \<^verbatim>\<open>application/pdf\<close> nor \<^verbatim>\<open>text/plain\<close>, text extraction returns the empty string and
  raises nothing, and the run that receives the file shows the upload message only: no
  summary, question or quiz section, no call of a pipeline, and the session state as it
  was.
\<close>

theorem unsupported_type:
  assumes "file_type file \<noteq> ''application/pdf''" and "file_type file \<noteq> ''text/plain''"
  shows "extract_file_text x file = Inr []
         \<and> (uploaded_file w = Some file \<longrightarrow>
              run_script x w sess
                = (sess, [Success ''Document uploaded and text extracted successfully!''], None))"
  using assms
  by (simp add: extract_file_text_def run_script_def load_document_def sections_def and_then_def)

subsection \<open>The quiz keeps one answer slot per question\<close>

lemma and_then_state:
  assumes "P (fst r)" and "\<And>s. P s \<Longrightarrow> P (fst (f s))"
  shows "P (fst (and_then r f))"
proof -
  obtain s ev err where r: "r = (s, ev, err)" by (cases r) auto
  show ?thesis
    using assms(1) assms(2) [of s] r
    by (cases err) (simp_all add: fst_and_then)
qed

lemma generate_questions_agree: "lengths_agree (generate_questions output st)"
  by (simp add: generate_questions_def lengths_agree_def Let_def)

lemma generate_handler_agree:
  "lengths_agree st \<Longrightarrow> lengths_agree (fst (generate_handler x doc st))"
  by (simp add: generate_handler_def generate_questions_agree Let_def split: sum.splits)

lemma capture_answers_agree:
  "lengths_agree st \<Longrightarrow> lengths_agree (fst (capture_answers w i qs st))"
proof (induction qs arbitrary: i st)
  case Nil
  then show ?case by simp
next
  case (Cons q qs)
  show ?case
    unfolding capture_answers.simps
  proof (rule and_then_state [where P = lengths_agree])
    show "lengths_agree (fst (capture_answers w (i + 1) qs s))" if "lengths_agree s" for s
      using that by (rule Cons.IH)
  qed (use Cons.prems in \<open>simp add: lengths_agree_def\<close>)
qed

lemma evaluate_handler_agree:
  "lengths_agree st \<Longrightarrow> lengths_agree (fst (evaluate_handler x doc st))"
  by (simp add: fst_evaluate_handler)

lemma init_quiz_agree: "quiz_inv sess \<Longrightarrow> lengths_agree (init_quiz sess)"
  by (cases sess) (simp_all add: quiz_inv_def init_quiz_def lengths_agree_def)

lemma gate_agree:
  "lengths_agree st \<Longrightarrow>
   lengths_agree (fst (if answers_complete st
                       then and_then (st, [Button ''Evaluate Answers''], None)
                              (\<lambda>st. if evaluate w then evaluate_handler x doc st
                                    else (st, [], None))
                       else (st, [], None)))"
  by (simp add: fst_and_then fst_evaluate_handler)

lemma quiz_section_agree:
  assumes "quiz_inv sess"
  shows "lengths_agree (fst (quiz_section x w doc sess))"
  unfolding quiz_section_def
proof (rule and_then_state [where P = lengths_agree])
  show "lengths_agree (fst (and_then
          (init_quiz sess,
           [Subheader ''Challenge Me: Auto Quiz'',
            Markdown ''Click below to generate 3 logic/comprehension questions based on your document.'',
            Button ''Generate Questions''],
           None)
          (\<lambda>st. if generate w then generate_handler x doc st else (st, [], None))))"
    using assms by (simp add: fst_and_then init_quiz_agree generate_handler_agree)
next
  fix s assume s: "lengths_agree s"
  have "lengths_agree (fst (and_then (capture_answers w 0 (questions s) s)
                 (\<lambda>st. if answers_complete st
                       then and_then (st, [Button ''Evaluate Answers''], None)
                              (\<lambda>st. if evaluate w then evaluate_handler x doc st
                                    else (st, [], None))
                       else (st, [], None))))"
  proof (rule and_then_state [where P = lengths_agree])
    show "lengths_agree (fst (capture_answers w 0 (questions s) s))"
      using s by (rule capture_answers_agree)
  qed (rule gate_agree)
  then show "lengths_agree (fst (if questions s \<noteq> [] then
               and_then (capture_answers w 0 (questions s) s)
                 (\<lambda>st. if answers_complete st then
                         and_then (st, [Button ''Evaluate Answers''], None)
                           (\<lambda>st. if evaluate w then evaluate_handler x doc st
                                 else (st, [], None))
                       else (st, [], None))
             else (s, [], None)))"
    using s by simp
qed

lemma sections_inv:
  assumes "quiz_inv sess"
  shows "quiz_inv (fst (sections x w doc sess))"
  unfolding sections_def
proof (intro and_then_state [where P = quiz_inv])
  fix s assume "quiz_inv s"
  then show "quiz_inv (fst (if doc \<noteq> [] then case quiz_section x w doc s of (st, ev, err) \<Rightarrow> (Some st, ev, err)
                            else (s, [], None)))"
    using quiz_section_agree [of s x w doc]
    by (cases "quiz_section x w doc s") (simp add: quiz_inv_def)
qed (use assms in \<open>simp_all split: prod.splits\<close>)

lemma run_script_inv:
  assumes "quiz_inv sess"
  shows "quiz_inv (fst (run_script x w sess))"
proof (cases "load_document x w")
  case (Inl e)
  then show ?thesis using assms by (simp add: run_script_def)
next
  case (Inr loaded)
  obtain doc shown where "loaded = (doc, shown)" by (cases loaded) auto
  then show ?thesis
    using Inr assms sections_inv [of sess x w doc]
    by (simp add: run_script_def fst_and_then)
qed

text \<open>
  Claim C6. In every session state that a session can reach, once the quiz state is
  initialised the question sequence and the user-answer sequence have the same length,
  and the next run keeps it so. Each quiz operation preserves the equality:
  initialisation and generation establish it, answer capture and evaluation keep it.
\<close>

theorem quiz_lengths_invariant:
  assumes "reachable sess"
  shows "quiz_inv sess
         \<and> quiz_inv (fst (run_script x w sess))
         \<and> lengths_agree (init_quiz None)
         \<and> lengths_agree (generate_questions output st)
         \<and> (lengths_agree st \<longrightarrow> lengths_agree (fst (capture_answers w 0 (questions st) st)))
         \<and> (lengths_agree st \<longrightarrow> lengths_agree (fst (evaluate_handler x document_text st)))"
proof -
  have inv: "quiz_inv sess"
    using assms
  proof (induction rule: reachable.induct)
    case start
    then show ?case by (simp add: quiz_inv_def)
  next
    case (run sess x w sess' ev err)
    then show ?case using run_script_inv [of sess x w] by simp
  qed
  have "quiz_inv None" by (simp add: quiz_inv_def)
  then have "lengths_agree (init_quiz None)" by (rule init_quiz_agree)
  moreover have "quiz_inv (fst (run_script x w sess))"
    using inv by (rule run_script_inv)
  moreover have "lengths_agree (generate_questions output st)"
    by (rule generate_questions_agree)
  moreover have "lengths_agree st \<longrightarrow> lengths_agree (fst (capture_answers w 0 (questions st) st))"
    using capture_answers_agree by blast
  moreover have "lengths_agree st \<longrightarrow> lengths_agree (fst (evaluate_handler x document_text st))"
    using evaluate_handler_agree by blast
  ultimately show ?thesis
    using inv by blast
qed

subsection \<open>Trimming and lines\<close>

lemma all_dropWhile: "(\<forall>x \<in> set (dropWhile P s). P x) \<longleftrightarrow> (\<forall>x \<in> set s. P x)"
proof
  assume all: "\<forall>x \<in> set (dropWhile P s). P x"
  have "dropWhile P s = []"
  proof (rule ccontr)
    assume ne: "dropWhile P s \<noteq> []"
    then have "\<not> P (hd (dropWhile P s))" by (rule hd_dropWhile)
    moreover have "hd (dropWhile P s) \<in> set (dropWhile P s)" using ne by simp
    ultimately show False using all by blast
  qed
  then show "\<forall>x \<in> set s. P x" by (simp add: dropWhile_eq_Nil_conv)
next
  assume "\<forall>x \<in> set s. P x"
  then show "\<forall>x \<in> set (dropWhile P s). P x" by (meson set_dropWhileD)
qed

lemma strip_Nil_iff: "strip s = [] \<longleftrightarrow> (\<forall>c \<in> set s. is_space c)"
  by (simp add: strip_def dropWhile_eq_Nil_conv all_dropWhile)

lemma strip_space_Cons: "is_space c \<Longrightarrow> strip (c # s) = strip s"
  by (simp add: strip_def)

lemma strip_append_space:
  assumes "\<forall>c \<in> set t. is_space c"
  shows "strip (s @ t) = strip s"
proof (cases "\<forall>c \<in> set s. is_space c")
  case True
  then have "strip (s @ t) = []" using assms by (auto simp: strip_Nil_iff)
  moreover have "strip s = []" using True by (simp add: strip_Nil_iff)
  ultimately show ?thesis by simp
next
  case False
  then have "dropWhile is_space (s @ t) = dropWhile is_space s @ t"
    by (auto simp: dropWhile_append1)
  moreover have "dropWhile is_space (rev t @ r) = dropWhile is_space r" for r
    by (rule dropWhile_append2) (use assms in simp)
  ultimately show ?thesis by (simp add: strip_def)
qed

lemma split_on_not_Nil [simp]: "split_on sep s \<noteq> []"
  by (induction s) (auto split: list.splits)

lemma split_on_Cons:
  "split_on sep (c # cs) =
     (if c = sep then [] # split_on sep cs
      else (c # hd (split_on sep cs)) # tl (split_on sep cs))"
  by (cases "split_on sep cs") simp_all

lemma split_on_append:
  "split_on sep (s @ t) =
     butlast (split_on sep s) @ [last (split_on sep s) @ hd (split_on sep t)] @ tl (split_on sep t)"
proof (induction s)
  case Nil
  then show ?case by simp
next
  case (Cons c s)
  obtain p ps where s: "split_on sep s = p # ps" by (cases "split_on sep s") auto
  obtain q qs where st: "split_on sep (s @ t) = q # qs" by (cases "split_on sep (s @ t)") auto
  show ?case
    using Cons s st by (cases ps) (auto)
qed


lemma blank_strip: "blank l \<longleftrightarrow> strip l = []"
  by (simp add: blank_def strip_Nil_iff list_all_iff)

lemma blank_Cons: "is_space c \<Longrightarrow> blank (c # l) = blank l"
  by (simp add: blank_def)

lemma kept_prefix:
  assumes "\<forall>c \<in> set p. is_space c"
  shows "map strip (nonblank_lines (p @ s)) = map strip (nonblank_lines s)"
  using assms
proof (induction p)
  case Nil
  then show ?case by simp
next
  case (Cons c p)
  obtain l ls where X: "split_on newline (p @ s) = l # ls"
    by (cases "split_on newline (p @ s)") auto
  have IH: "map strip (nonblank_lines (p @ s)) = map strip (nonblank_lines s)"
    using Cons by simp
  have c: "is_space c" using Cons.prems by simp
  show ?case
  proof (cases "c = newline")
    case True
    then show ?thesis
      using IH by (simp add: nonblank_lines_def blank_def)
  next
    case False
    then have "map strip (nonblank_lines ((c # p) @ s)) = map strip (filter (\<lambda>l. \<not> blank l) (l # ls))"
      using X c by (simp add: nonblank_lines_def blank_Cons strip_space_Cons)
    then show ?thesis
      using IH X by (simp add: nonblank_lines_def)
  qed
qed

lemma split_on_blank:
  assumes "\<forall>c \<in> set q. is_space c"
  shows "\<forall>l \<in> set (split_on sep q). blank l"
  using assms
proof (induction q)
  case Nil
  then show ?case by (simp add: blank_def)
next
  case (Cons c q)
  obtain l ls where X: "split_on sep q = l # ls"
    by (cases "split_on sep q") auto
  then show ?case
    using Cons by (auto simp: blank_def)
qed

lemma blank_append: "blank (a @ b) \<longleftrightarrow> blank a \<and> blank b"
  by (simp add: blank_def)

lemma kept_suffix:
  assumes "\<forall>c \<in> set q. is_space c"
  shows "map strip (nonblank_lines (s @ q)) = map strip (nonblank_lines s)"
proof -
  obtain h t where Q: "split_on newline q = h # t"
    by (cases "split_on newline q") auto
  have all: "\<forall>l \<in> set (h # t). blank l"
    using split_on_blank [OF assms, of newline] Q by simp
  then have h: "blank h" and t: "filter (\<lambda>l. \<not> blank l) t = []"
    by (auto simp: filter_empty_conv)
  have hs: "\<forall>c \<in> set h. is_space c"
    using h by (simp add: blank_def list_all_iff)
  define X where "X = split_on newline s"
  have X: "X \<noteq> []" by (simp add: X_def)
  have "split_on newline (s @ q) = butlast X @ [last X @ h] @ t"
    by (simp add: split_on_append Q X_def)
  then have "map strip (nonblank_lines (s @ q))
      = map strip (filter (\<lambda>l. \<not> blank l) (butlast X)) @ map strip (filter (\<lambda>l. \<not> blank l) [last X @ h])"
    by (simp add: nonblank_lines_def t)
  also have "map strip (filter (\<lambda>l. \<not> blank l) [last X @ h]) = map strip (filter (\<lambda>l. \<not> blank l) [last X])"
    using h by (simp add: blank_append strip_append_space [OF hs])
  also have "map strip (filter (\<lambda>l. \<not> blank l) (butlast X)) @ map strip (filter (\<lambda>l. \<not> blank l) [last X])
      = map strip (filter (\<lambda>l. \<not> blank l) (butlast X @ [last X]))"
    by simp
  also have "butlast X @ [last X] = X"
    using X by simp
  finally show ?thesis by (simp add: nonblank_lines_def X_def)
qed

lemma strip_decompose:
  "\<exists>p q. s = p @ strip s @ q \<and> (\<forall>c \<in> set p. is_space c) \<and> (\<forall>c \<in> set q. is_space c)"
proof -
  define d where "d = dropWhile is_space s"
  have "s = takeWhile is_space s @ d" by (simp add: d_def)
  moreover have "d = strip s @ rev (takeWhile is_space (rev d))"
  proof -
    have "rev (dropWhile is_space (rev d)) @ rev (takeWhile is_space (rev d))
        = rev (takeWhile is_space (rev d) @ dropWhile is_space (rev d))"
      by (simp only: rev_append)
    also have "\<dots> = d"
      by (simp only: takeWhile_dropWhile_id rev_rev_ident)
    finally show ?thesis by (simp only: strip_def d_def)
  qed
  moreover have "\<forall>c \<in> set (takeWhile is_space s). is_space c" by (meson set_takeWhileD)
  moreover have "\<forall>c \<in> set (rev (takeWhile is_space (rev d))). is_space c"
    by (metis set_rev set_takeWhileD)
  ultimately show ?thesis by metis
qed

lemma nonblank_lines_strip: "map strip (nonblank_lines (strip s)) = map strip (nonblank_lines s)"
proof -
  obtain p q where s: "s = p @ strip s @ q" and p: "\<forall>c \<in> set p. is_space c" and q: "\<forall>c \<in> set q. is_space c"
    using strip_decompose by blast
  have "map strip (nonblank_lines s) = map strip (nonblank_lines (p @ strip s @ q))"
    using s by simp
  also have "\<dots> = map strip (nonblank_lines (strip s @ q))"
    by (rule kept_prefix [OF p])
  also have "\<dots> = map strip (nonblank_lines (strip s))"
    by (rule kept_suffix [OF q])
  finally show ?thesis by simp
qed

subsection \<open>Generating the questions\<close>

text \<open>
  The body of the Generate Questions button (lines 106 to 111), on the text the generator
  returned: it splits the text into lines, discards the lines that are empty or hold
  whitespace only, keeps at most the first three of the lines left as the questions (each
  one trimmed), and puts a single placeholder question in their place when none is left;
  it sets the answers to empty strings, one for each question. So there are between one
  and three questions.
\<close>

lemma generate_questions_lines:
  "questions (generate_questions output st) =
     (if nonblank_lines output = [] then [''Unable to generate clear questions.'']
      else take 3 (map strip (nonblank_lines output)))
   \<and> user_answers (generate_questions output st)
       = replicate (length (questions (generate_questions output st))) []
   \<and> 1 \<le> length (questions (generate_questions output st))
   \<and> length (questions (generate_questions output st)) \<le> 3"
proof -
  have code: "map strip (filter (\<lambda>q. strip q \<noteq> []) (split_on newline (strip output)))
      = map strip (nonblank_lines output)"
    using nonblank_lines_strip [of "output"] by (simp add: nonblank_lines_def blank_strip)
  have empty: "(filter (\<lambda>q. strip q \<noteq> []) (split_on newline (strip output)) = [])
      = (nonblank_lines output = [])"
    using code by (metis map_is_Nil_conv)
  have q: "questions (generate_questions output st) =
     (if nonblank_lines output = [] then [''Unable to generate clear questions.'']
      else take 3 (map strip (nonblank_lines output)))"
    using code empty by (simp add: generate_questions_def Let_def)
  have a: "user_answers (generate_questions output st)
       = replicate (length (questions (generate_questions output st))) []"
    by (simp add: generate_questions_def Let_def)
  have "1 \<le> length (questions (generate_questions output st))"
    unfolding q by (cases "nonblank_lines output") simp_all
  moreover have "length (questions (generate_questions output st)) \<le> 3"
    unfolding q by simp
  ultimately show ?thesis using q a by blast
qed

text \<open>
  The run that performs the transition does not stop at line 111: the questions now being
  there, it goes on to the answer capture (lines 114 to 116), which assigns to every slot
  the value of its text input. The text inputs are keyed (\<^verbatim>\<open>ans_0\<close>, \<^verbatim>\<open>ans_1\<close>, ...), and a
  keyed widget keeps its value from one run to the next. So the state that the run leaves
  has the slots of \<open>generate_questions\<close> overwritten by the values of the widgets: the
  questions of the run, and for each of them whatever its text input holds.
\<close>

lemma capture_answers_slots:
  "i + length qs \<le> length (user_answers st) \<Longrightarrow>
   capture_answers w i qs st = (st', ev, err) \<Longrightarrow>
   err = None \<and> questions st' = questions st
   \<and> user_answers st' = take i (user_answers st) @ map (answer_input w) [i ..< i + length qs]
        @ drop (i + length qs) (user_answers st)"
proof (induction qs arbitrary: i st st' ev err)
  case Nil
  then show ?case by simp
next
  case (Cons q qs)
  let ?st1 = "st\<lparr>user_answers := (user_answers st)[i := answer_input w i]\<rparr>"
  obtain st2 ev2 err2 where rest: "capture_answers w (Suc i) qs ?st1 = (st2, ev2, err2)"
    by (cases "capture_answers w (Suc i) qs ?st1") auto
  have i: "i < length (user_answers st)"
    using Cons.prems(1) by simp
  have ih: "err2 = None \<and> questions st2 = questions ?st1
   \<and> user_answers st2 = take (Suc i) (user_answers ?st1) @ map (answer_input w) [Suc i ..< Suc i + length qs]
        @ drop (Suc i + length qs) (user_answers ?st1)"
    using Cons.IH [OF _ rest] Cons.prems(1) by simp
  have eq: "st' = st2 \<and> err = err2"
    using Cons.prems(2) rest i by (simp add: and_then_def)
  have "take (Suc i) ((user_answers st)[i := answer_input w i])
      = take i (user_answers st) @ [answer_input w i]"
    using i by (simp add: take_Suc_conv_app_nth)
  moreover have "[i ..< i + length (q # qs)] = i # [Suc i ..< Suc i + length qs]"
    by (simp add: upt_rec)
  ultimately show ?case
    using ih eq by simp
qed

lemma generate_run_slots:
  assumes "question_generator x (''generate questions: '' @ take 1000 document_text) = Inr output"
    and "generate w"
    and "quiz_section x w document_text sess = (st, ev, None)"
  shows "questions st = questions (generate_questions output (init_quiz sess))
    \<and> user_answers st = map (answer_input w) [0 ..< length (questions st)]"
proof -
  let ?g = "generate_questions output (init_quiz sess)"
  have q: "questions ?g \<noteq> []" and len: "length (user_answers ?g) = length (questions ?g)"
    using generate_questions_lines [of "output" "init_quiz sess"] by auto
  obtain st2 ev2 err2 where c: "capture_answers w 0 (questions ?g) ?g = (st2, ev2, err2)"
    by (cases "capture_answers w 0 (questions ?g) ?g") auto
  have slots: "err2 = None \<and> questions st2 = questions ?g
      \<and> user_answers st2 = map (answer_input w) [0 ..< length (questions ?g)]"
    using capture_answers_slots [OF _ c] len by simp
  have "fst (quiz_section x w document_text sess) = st2"
    using assms(1,2) q c slots
    by (auto simp: quiz_section_def and_then_def generate_handler_def Let_def evaluate_handler_def
        split: prod.splits)
  then show ?thesis
    using assms(3) slots by simp
qed


subsection \<open>The gate of evaluation\<close>

lemma summarize_chunks_no_gate: "\<forall>e \<in> set (fst (summarize_chunks x i chunks acc)). \<not> gate_event e"
proof (induction chunks arbitrary: i acc)
  case Nil
  then show ?case by simp
next
  case (Cons chunk chunks)
  show ?case
  proof (cases "summarizer x chunk")
    case (Inl e)
    then show ?thesis by (simp add: gate_event_def)
  next
    case (Inr t)
    obtain calls res where r:
      "summarize_chunks x (Suc i) chunks (acc @ show_nat (Suc i) @ ''. '' @ t @ [newline, newline]) = (calls, res)"
      by (cases "summarize_chunks x (Suc i) chunks (acc @ show_nat (Suc i) @ ''. '' @ t @ [newline, newline])") auto
    have "\<forall>e \<in> set calls. \<not> gate_event e"
      using Cons [of "Suc i" "acc @ show_nat (Suc i) @ ''. '' @ t @ [newline, newline]"] r by simp
    then show ?thesis
      using Inr r by (simp add: gate_event_def)
  qed
qed

lemma summary_section_no_gate: "\<forall>e \<in> set (fst (summary_section x doc)). \<not> gate_event e"
proof (cases "split_text doc 1000")
  case (Inl err)
  then show ?thesis by (simp add: summary_section_def gate_event_def)
next
  case (Inr text_chunks)
  obtain calls res where r: "summarize_chunks x 0 (take 5 text_chunks) [] = (calls, res)"
    by (cases "summarize_chunks x 0 (take 5 text_chunks) []") auto
  have "\<forall>e \<in> set calls. \<not> gate_event e"
    using summarize_chunks_no_gate [where x = x and i = 0 and acc = "[]" and chunks = "take 5 text_chunks"]
    by (simp add: r)
  then show ?thesis
    using Inr r by (cases res) (auto simp: summary_section_def gate_event_def)
qed

lemma ask_section_no_gate: "\<forall>e \<in> set (fst (ask_section x w doc)). \<not> gate_event e"
  by (auto simp: ask_section_def gate_event_def Let_def split: sum.splits)

lemma capture_answers_no_gate: "\<forall>e \<in> set (trace (capture_answers w i qs st)). \<not> gate_event e"
proof (induction qs arbitrary: i st)
  case Nil
  then show ?case by (simp add: trace_def)
next
  case (Cons q qs)
  show ?case
    unfolding capture_answers.simps
  proof (rule and_then_trace)
    show "\<forall>e\<in>set (trace (capture_answers w (i + 1) qs s)). \<not> gate_event e" for s
      by (rule Cons)
  qed (simp add: trace_def gate_event_def)
qed

lemma capture_answers_questions: "questions (fst (capture_answers w i qs st)) = questions st"
proof (induction qs arbitrary: i st)
  case Nil
  then show ?case by simp
next
  case (Cons q qs)
  show ?case
    by (simp add: fst_and_then Cons)
qed

lemma evaluate_answers_no_button:
  "Button b \<notin> set (fst (evaluate_answers x doc i pairs))"
proof (induction pairs arbitrary: i)
  case Nil
  then show ?case by simp
next
  case (Cons p pairs)
  obtain q u where p: "p = (q, u)" by (cases p) auto
  obtain shown err where r: "evaluate_answers x doc (Suc i) pairs = (shown, err)"
    by (cases "evaluate_answers x doc (Suc i) pairs") auto
  have "Button b \<notin> set shown"
    using Cons [of "Suc i"] r by simp
  then show ?case
    by (cases "qa_pipeline x q (truncate_context doc)")
       (simp_all add: p r verdict_def)
qed

lemma quiz_section_gate:
  "gate_closed (quiz_section x w doc sess) \<or> gate_open (evaluate w) (quiz_section x w doc sess)"
proof -
  define head where "head = [Subheader ''Challenge Me: Auto Quiz'',
            Markdown ''Click below to generate 3 logic/comprehension questions based on your document.'',
            Button ''Generate Questions'']"
  define G where "G = (\<lambda>st. if answers_complete st then
                         and_then (st, [Button ''Evaluate Answers''], None)
                           (\<lambda>st. if evaluate w then evaluate_handler x doc st
                                 else (st, [], None))
                       else (st, [], None))"
  define F where "F = (\<lambda>st. if questions st \<noteq> [] then
               and_then (capture_answers w 0 (questions st) st) G
             else (st, [], None))"
  define r1 where "r1 = and_then (init_quiz sess, head, None)
          (\<lambda>st. if generate w then generate_handler x doc st else (st, [], None))"
  have qs: "quiz_section x w doc sess = and_then r1 F"
    unfolding quiz_section_def r1_def F_def G_def head_def by (rule refl)
  obtain st1 ev1 err1 where r1: "r1 = (st1, ev1, err1)" by (cases r1) auto
  have ev1: "\<forall>e \<in> set ev1. \<not> gate_event e"
    using r1 unfolding r1_def head_def
    by (auto simp: and_then_def generate_handler_def Let_def gate_event_def split: if_splits sum.splits)
  show ?thesis
  proof (cases err1)
    case (Some e)
    then show ?thesis using ev1 by (simp add: qs r1 and_then_def gate_closed_def)
  next
    case None
    show ?thesis
    proof (cases "questions st1 = []")
      case True
      then show ?thesis using ev1 None by (simp add: qs r1 and_then_def gate_closed_def F_def)
    next
      case False
      obtain st2 ev2 err2 where c: "capture_answers w 0 (questions st1) st1 = (st2, ev2, err2)"
        by (cases "capture_answers w 0 (questions st1) st1") auto
      have ev2: "\<forall>e \<in> set ev2. \<not> gate_event e"
        using capture_answers_no_gate [of w 0 "questions st1" st1] c by (simp add: trace_def)
      have q2: "questions st2 \<noteq> []"
        using capture_answers_questions [of w 0 "questions st1" st1] c False by simp
      show ?thesis
      proof (cases err2)
        case (Some e)
        then show ?thesis
          using ev1 ev2 None False c by (auto simp: qs r1 and_then_def gate_closed_def F_def)
      next
        case None2: None
        show ?thesis
        proof (cases "answers_complete st2")
          case False
          then show ?thesis
            using ev1 ev2 None None2 \<open>questions st1 \<noteq> []\<close> c
            by (auto simp: qs r1 and_then_def gate_closed_def F_def G_def)
        next
          case True
          show ?thesis
          proof (cases "evaluate w")
            case False
            then have "quiz_section x w doc sess = (st2, ev1 @ ev2 @ [Button ''Evaluate Answers''], None)"
              using None None2 \<open>questions st1 \<noteq> []\<close> c True
              by (simp add: qs r1 and_then_def F_def G_def)
            moreover have "Subheader ''Evaluation Results'' \<notin> set (ev1 @ ev2 @ [Button ''Evaluate Answers''])"
              using ev1 ev2 by (auto simp: gate_event_def)
            ultimately show ?thesis
              using q2 True by (simp add: gate_open_def)
          next
            case clicked: True
            obtain shown err where e: "evaluate_answers x doc 0 (zip (questions st2) (user_answers st2)) = (shown, err)"
              by (cases "evaluate_answers x doc 0 (zip (questions st2) (user_answers st2))") auto
            have "quiz_section x w doc sess
                = (st2, ev1 @ ev2 @ Button ''Evaluate Answers'' # Subheader ''Evaluation Results'' # shown, err)"
              using None None2 \<open>questions st1 \<noteq> []\<close> c True clicked e
              by (simp add: qs r1 and_then_def F_def G_def evaluate_handler_def)
            then show ?thesis
              using q2 True clicked by (simp add: gate_open_def)
          qed
        qed
      qed
    qed
  qed
qed


lemma sections_gate:
  "session_gate_closed (doc \<noteq> []) (sections x w doc sess)
   \<or> session_gate_open (evaluate w) (sections x w doc sess)"
proof (cases "doc = []")
  case True
  then show ?thesis
    by (simp add: sections_def and_then_def session_gate_closed_def)
next
  case False
  obtain evS errS where S: "summary_section x doc = (evS, errS)"
    by (cases "summary_section x doc") auto
  obtain evA errA where A: "ask_section x w doc = (evA, errA)"
    by (cases "ask_section x w doc") auto
  obtain stQ evQ errQ where Q: "quiz_section x w doc sess = (stQ, evQ, errQ)"
    by (cases "quiz_section x w doc sess") auto
  have evS: "\<forall>e \<in> set evS. \<not> gate_event e"
    using summary_section_no_gate [of x doc] S by simp
  have evA: "\<forall>e \<in> set evA. \<not> gate_event e"
    using ask_section_no_gate [of x w doc] A by simp
  have nb: "Button ''Evaluate Answers'' \<notin> set evS \<and> Button ''Evaluate Answers'' \<notin> set evA
      \<and> Subheader ''Evaluation Results'' \<notin> set evS \<and> Subheader ''Evaluation Results'' \<notin> set evA"
    using evS evA by (auto simp: gate_event_def)
  show ?thesis
  proof (cases errS)
    case (Some e)
    then show ?thesis
      using False S evS by (simp add: sections_def and_then_def session_gate_closed_def)
  next
    case None
    show ?thesis
    proof (cases errA)
      case (Some e)
      then show ?thesis
        using False S A None evS evA
        by (auto simp: sections_def and_then_def session_gate_closed_def)
    next
      case NoneA: None
      have eq: "sections x w doc sess = (Some stQ, evS @ evA @ evQ, errQ)"
        using False S A Q None NoneA by (simp add: sections_def and_then_def)
      from quiz_section_gate [of x w doc sess] show ?thesis
      proof
        assume "gate_closed (quiz_section x w doc sess)"
        then have "session_gate_closed (doc \<noteq> []) (sections x w doc sess)"
          using evS evA by (auto simp: eq Q gate_closed_def session_gate_closed_def)
        then show ?thesis ..
      next
        assume "gate_open (evaluate w) (quiz_section x w doc sess)"
        then have "session_gate_open (evaluate w) (sections x w doc sess)"
          using nb by (auto simp: eq Q gate_open_def session_gate_open_def)
        then show ?thesis ..
      qed
    qed
  qed
qed

lemma run_script_gate:
  "session_gate_closed (\<exists>doc shown. load_document x w = Inr (doc, shown) \<and> doc \<noteq> []) (run_script x w sess)
   \<or> session_gate_open (evaluate w) (run_script x w sess)"
proof (cases "load_document x w")
  case (Inl e)
  then show ?thesis by (simp add: run_script_def session_gate_closed_def)
next
  case (Inr loaded)
  obtain doc shown where loaded: "loaded = (doc, shown)" by (cases loaded) auto
  obtain s ev err where sec: "sections x w doc sess = (s, ev, err)"
    by (cases "sections x w doc sess") auto
  have shown: "\<forall>e \<in> set shown. \<not> gate_event e"
    using Inr loaded
    by (auto simp: load_document_def gate_event_def split: option.splits sum.splits)
  have eq: "run_script x w sess = (s, shown @ ev, err)"
    using Inr loaded sec by (simp add: run_script_def and_then_def)
  from sections_gate [of doc x w sess] show ?thesis
  proof
    assume "session_gate_closed (doc \<noteq> []) (sections x w doc sess)"
    then have "session_gate_closed (\<exists>doc shown. load_document x w = Inr (doc, shown) \<and> doc \<noteq> [])
        (run_script x w sess)"
      using shown Inr loaded by (auto simp: eq sec session_gate_closed_def)
    then show ?thesis ..
  next
    assume "session_gate_open (evaluate w) (sections x w doc sess)"
    then have "session_gate_open (evaluate w) (run_script x w sess)"
      using shown by (auto simp: eq sec session_gate_open_def gate_event_def split: option.splits)
    then show ?thesis ..
  qed
qed

text \<open>
  Claim C7. The Evaluate transition leaves the Generated state, a quiz with a question:
  the evaluation block (lines 118 and 119) lies inside the block of the questions (line
  113). Whenever the quiz section runs to its end without an exception, and so for every
  run on a loaded document with text that no exception ends, the Evaluate Answers button
  is offered if and only if the quiz has a question and every answer slot is non-empty
  after trimming whitespace; the slots are the current ones, as the answer capture of the
  same run leaves them. And no run performs evaluation unless the button was offered and
  pressed, the quiz has a question and no answer slot is blank.
\<close>

theorem evaluate_gate:
  "(quiz_section x w document_text sess = (st, ev, None)
    \<longrightarrow> (Button ''Evaluate Answers'' \<in> set ev \<longleftrightarrow> questions st \<noteq> [] \<and> answers_complete st))
   \<and> (load_document x w = Inr (doc, shown) \<and> doc \<noteq> []
      \<and> run_script x w sess = (Some st', ev', None)
    \<longrightarrow> (Button ''Evaluate Answers'' \<in> set ev' \<longleftrightarrow> questions st' \<noteq> [] \<and> answers_complete st'))
   \<and> (Subheader ''Evaluation Results'' \<in> set (trace (run_script x w sess))
    \<longrightarrow> Button ''Evaluate Answers'' \<in> set (trace (run_script x w sess))
        \<and> evaluate w
        \<and> (\<exists>q. fst (run_script x w sess) = Some q \<and> questions q \<noteq> []
              \<and> answers_complete q))"
proof -
  have quiz: "Button ''Evaluate Answers'' \<in> set ev \<longleftrightarrow> questions st \<noteq> [] \<and> answers_complete st"
    if a: "quiz_section x w document_text sess = (st, ev, None)"
    using quiz_section_gate [of x w document_text sess]
  proof
    assume "gate_closed (quiz_section x w document_text sess)"
    then show ?thesis
      using a by (auto simp: gate_closed_def gate_event_def)
  next
    assume "gate_open (evaluate w) (quiz_section x w document_text sess)"
    then show ?thesis
      using a by (simp add: gate_open_def)
  qed
  have offered: "Button ''Evaluate Answers'' \<in> set ev' \<longleftrightarrow> questions st' \<noteq> [] \<and> answers_complete st'"
    if a: "load_document x w = Inr (doc, shown) \<and> doc \<noteq> []
      \<and> run_script x w sess = (Some st', ev', None)"
    using run_script_gate [of x w sess]
  proof
    assume "session_gate_closed (\<exists>doc shown. load_document x w = Inr (doc, shown) \<and> doc \<noteq> [])
        (run_script x w sess)"
    then show ?thesis
      using a by (auto simp: session_gate_closed_def gate_event_def)
  next
    assume "session_gate_open (evaluate w) (run_script x w sess)"
    then show ?thesis
      using a by (simp add: session_gate_open_def)
  qed
  have run: "Button ''Evaluate Answers'' \<in> set (trace (run_script x w sess))
        \<and> evaluate w
        \<and> (\<exists>q. fst (run_script x w sess) = Some q \<and> questions q \<noteq> []
              \<and> answers_complete q)"
    if b: "Subheader ''Evaluation Results'' \<in> set (trace (run_script x w sess))"
  proof -
    obtain s evs err where r: "run_script x w sess = (s, evs, err)"
      by (cases "run_script x w sess") auto
    have "\<not> session_gate_closed (\<exists>doc shown. load_document x w = Inr (doc, shown) \<and> doc \<noteq> [])
        (run_script x w sess)"
      using b by (auto simp: r session_gate_closed_def gate_event_def trace_def)
    then have "session_gate_open (evaluate w) (run_script x w sess)"
      using run_script_gate [of x w sess] by blast
    then show ?thesis
      using b by (auto simp: r session_gate_open_def trace_def split: option.splits)
  qed
  show ?thesis
    using quiz offered run by blast
qed

subsection \<open>The summary\<close>

lemma summarizer_calls_append [simp]:
  "summarizer_calls (a @ b) = summarizer_calls a @ summarizer_calls b"
  by (induction a rule: summarizer_calls.induct) simp_all

lemma summarizer_calls_map [simp]: "summarizer_calls (map Call_summarizer chunks) = chunks"
  by (induction chunks) simp_all

lemma summarize_chunks_all:
  assumes "\<forall>c \<in> set chunks. summarizer x c = Inr (f c)"
  shows "summarize_chunks x i chunks acc =
           (map Call_summarizer chunks,
            Inr (acc @ concat (map (\<lambda>(j, c). labelled j (f c) @ [newline, newline])
                                 (enumerate i chunks))))"
  using assms
proof (induction chunks arbitrary: i acc)
  case Nil
  then show ?case by simp
next
  case (Cons c chunks)
  have c: "summarizer x c = Inr (f c)" using Cons.prems by simp
  have "summarize_chunks x (Suc i) chunks (acc @ show_nat (Suc i) @ ''. '' @ f c @ [newline, newline]) =
           (map Call_summarizer chunks,
            Inr ((acc @ show_nat (Suc i) @ ''. '' @ f c @ [newline, newline])
                 @ concat (map (\<lambda>(j, c). labelled j (f c) @ [newline, newline])
                                 (enumerate (Suc i) chunks))))"
    using Cons.prems by (intro Cons.IH) simp
  then show ?case
    using c by (simp add: labelled_def)
qed

lemma summarize_chunks_prefix:
  "\<exists>n. summarizer_calls (fst (summarize_chunks x i chunks acc)) = take n chunks"
proof (induction chunks arbitrary: i acc)
  case Nil
  then show ?case by simp
next
  case (Cons c chunks)
  show ?case
  proof (cases "summarizer x c")
    case (Inl e)
    have "summarizer_calls (fst (summarize_chunks x i (c # chunks) acc)) = take 1 (c # chunks)"
      using Inl by simp
    then show ?thesis by blast
  next
    case (Inr t)
    obtain calls res where r:
      "summarize_chunks x (Suc i) chunks (acc @ show_nat (Suc i) @ ''. '' @ t @ [newline, newline]) = (calls, res)"
      by (cases "summarize_chunks x (Suc i) chunks (acc @ show_nat (Suc i) @ ''. '' @ t @ [newline, newline])") auto
    obtain n where "summarizer_calls calls = take n chunks"
      using Cons [of "Suc i" "acc @ show_nat (Suc i) @ ''. '' @ t @ [newline, newline]"] r by auto
    then have "summarizer_calls (fst (summarize_chunks x i (c # chunks) acc)) = take (Suc n) (c # chunks)"
      using Inr r by simp
    then show ?thesis by blast
  qed
qed

lemma concat_join:
  "es \<noteq> [] \<Longrightarrow> concat (map (\<lambda>e. e @ sep) es) = join sep es @ sep"
  by (induction sep es rule: join.induct) simp_all

lemma strip_entries:
  "strip (concat (map (\<lambda>e. e @ [newline, newline]) es)) = strip (join [newline, newline] es)"
proof (cases es)
  case Nil
  then show ?thesis by simp
next
  case (Cons e es')
  have sp: "\<forall>c \<in> set [newline, newline]. is_space c"
    by (simp add: is_space_def)
  have "concat (map (\<lambda>e. e @ [newline, newline]) es) = join [newline, newline] es @ [newline, newline]"
    using Cons by (intro concat_join) simp
  then show ?thesis
    using strip_append_space [OF sp] by simp
qed

lemma map_entries:
  "map (\<lambda>(j, c). labelled j (f c) @ sep) xs = map (\<lambda>e. e @ sep) (map (\<lambda>(j, c). labelled j (f c)) xs)"
  by (induction xs) auto

lemma strip_labelled:
  "strip (concat (map (\<lambda>(j, c). labelled j (f c) @ [newline, newline]) xs))
     = strip (join [newline, newline] (map (\<lambda>(j, c). labelled j (f c)) xs))"
  by (simp only: map_entries strip_entries)

text \<open>
  Claim C4. The summarizer adapter calls the summarization pipeline once for each of the
  first five chunks at most, in chunk order (for fewer chunks when the chunker made fewer,
  and for an initial part of them when a call raises). When the calls succeed, it shows
  the summaries of these chunks, each behind its ordinal label counted from 1, in chunk
  order, separated by blank lines, with the whitespace at both ends of the whole trimmed.
\<close>

theorem summarizer_adapter:
  assumes "split_text document_text 1000 = Inr text_chunks"
  shows "(\<exists>n \<le> 5. summarizer_calls (fst (summary_section x document_text)) = take n text_chunks)
         \<and> ((\<forall>c \<in> set (take 5 text_chunks). summarizer x c = Inr (f c)) \<longrightarrow>
              summary_section x document_text =
                ([Subheader ''Auto-Generated Summary'',
                  Info ''Summarizing the main points of your uploaded document...'']
                 @ map Call_summarizer (take 5 text_chunks)
                 @ [Write (strip (join [newline, newline]
                             (map (\<lambda>(i, c). labelled i (f c)) (enumerate 0 (take 5 text_chunks))))),
                    Markdown ''---''],
                 None))"
proof
  obtain calls res where r: "summarize_chunks x 0 (take 5 text_chunks) [] = (calls, res)"
    by (cases "summarize_chunks x 0 (take 5 text_chunks) []") auto
  obtain n where n: "summarizer_calls calls = take n (take 5 text_chunks)"
    using summarize_chunks_prefix [of x 0 "take 5 text_chunks" "[]"] r by auto
  have "summarizer_calls (fst (summary_section x document_text)) = take (min n 5) text_chunks"
    using assms r n by (cases res) (simp_all add: summary_section_def)
  then show "\<exists>n \<le> 5. summarizer_calls (fst (summary_section x document_text)) = take n text_chunks"
    by (metis min.cobounded2)
next
  show "(\<forall>c \<in> set (take 5 text_chunks). summarizer x c = Inr (f c)) \<longrightarrow>
              summary_section x document_text =
                ([Subheader ''Auto-Generated Summary'',
                  Info ''Summarizing the main points of your uploaded document...'']
                 @ map Call_summarizer (take 5 text_chunks)
                 @ [Write (strip (join [newline, newline]
                             (map (\<lambda>(i, c). labelled i (f c)) (enumerate 0 (take 5 text_chunks))))),
                    Markdown ''---''],
                 None)"
  proof
    assume ok: "\<forall>c \<in> set (take 5 text_chunks). summarizer x c = Inr (f c)"
    have "summarize_chunks x 0 (take 5 text_chunks) [] =
           (map Call_summarizer (take 5 text_chunks),
            Inr ([] @ concat (map (\<lambda>(j, c). labelled j (f c) @ [newline, newline])
                                 (enumerate 0 (take 5 text_chunks)))))"
      using ok by (rule summarize_chunks_all)
    then show "summary_section x document_text =
                ([Subheader ''Auto-Generated Summary'',
                  Info ''Summarizing the main points of your uploaded document...'']
                 @ map Call_summarizer (take 5 text_chunks)
                 @ [Write (strip (join [newline, newline]
                             (map (\<lambda>(i, c). labelled i (f c)) (enumerate 0 (take 5 text_chunks))))),
                    Markdown ''---''],
                 None)"
      using assms by (simp add: summary_section_def strip_labelled)
  qed
qed

subsection \<open>Evaluating the answers\<close>



subsection \<open>The chunker keeps the text\<close>


lemma space_is_space: "is_space CHR '' ''"
  by (simp add: is_space_def)

lemma concat_wordsep_split: "concat (wordsep_split prev rest) = rest"
proof (induction prev rest rule: wordsep_split.induct)
  case (1 prev rest)
  show ?case
  proof (cases "rest = []")
    case True
    then show ?thesis by (simp add: wordsep_split.simps)
  next
    case False
    then show ?thesis
      using 1 by (subst wordsep_split.simps) simp
  qed
qed

lemma concat_filter_nonempty: "concat (filter (\<lambda>c. c \<noteq> []) xs) = concat xs"
  by (induction xs) simp_all

lemma concat_tw_split: "concat (tw_split text) = text"
  by (simp add: tw_split_def concat_filter_nonempty concat_wordsep_split)


lemma concat_long_word:
  "concat (fst (long_word w (l, r))) @ concat (snd (long_word w (l, r))) = concat l @ concat r"
  by (cases r) (simp_all add: long_word_def handle_long_word_def Let_def split: prod.splits)

lemma weave_gap: "weave ((b @ g) # gaps) segments = b @ weave (g # gaps) segments"
  by (cases segments) simp_all

lemma all_space_blank: "all_space c \<longleftrightarrow> blank c"
  by (simp add: all_space_def blank_strip)

lemma blank_Nil [simp]: "blank []"
  by (simp add: blank_def)

lemma drop_leading_parts:
  "\<exists>a. blank a \<and> concat chunks = a @ concat (drop_leading st chunks)"
proof (cases chunks)
  case Nil
  then show ?thesis by (simp add: drop_leading_def)
next
  case (Cons c cs)
  show ?thesis
  proof (cases "all_space c \<and> st")
    case True
    then have "blank c \<and> concat chunks = c @ concat (drop_leading st chunks)"
      using Cons by (simp add: drop_leading_def all_space_blank)
    then show ?thesis by blast
  next
    case False
    then have "blank [] \<and> concat chunks = [] @ concat (drop_leading st chunks)"
      using Cons by (auto simp: drop_leading_def)
    then show ?thesis by blast
  qed
qed

lemma drop_trailing_parts:
  "\<exists>b. blank b \<and> concat l = concat (drop_trailing l) @ b"
proof (cases "l \<noteq> [] \<and> all_space (last l)")
  case True
  then have "concat l = concat (butlast l) @ last l"
    by (metis append_butlast_last_id concat.simps(1) concat.simps(2) concat_append append_Nil2)
  then have "blank (last l) \<and> concat l = concat (drop_trailing l) @ last l"
    using True by (simp add: drop_trailing_def all_space_blank)
  then show ?thesis by blast
next
  case False
  then have "blank [] \<and> concat l = concat (drop_trailing l) @ []"
    by (auto simp: drop_trailing_def)
  then show ?thesis by blast
qed

lemma next_line_parts:
  assumes "next_line w st chunks = (cur_line, rest)"
  shows "\<exists>a b. blank a \<and> blank b \<and> concat chunks = a @ concat cur_line @ b @ concat rest"
proof -
  obtain l r where filled: "fill_line w 0 (drop_leading st chunks) = (l, r)"
    by (cases "fill_line w 0 (drop_leading st chunks)") auto
  obtain l' r' where long: "long_word w (l, r) = (l', r')"
    by (cases "long_word w (l, r)") auto
  have nl: "next_line w st chunks = (drop_trailing l', r')"
    by (simp add: next_line_def filled long)
  obtain a where a: "blank a" "concat chunks = a @ concat (drop_leading st chunks)"
    using drop_leading_parts [of chunks st] by blast
  obtain b where b: "blank b" "concat l' = concat (drop_trailing l') @ b"
    using drop_trailing_parts [of l'] by blast
  have "concat l' @ concat r' = concat l @ concat r"
    using concat_long_word [of w l r] long by simp
  also have "\<dots> = concat (drop_leading st chunks)"
    using fill_line_app [OF filled] by (metis concat_append)
  finally have "concat chunks = a @ concat (drop_trailing l') @ b @ concat r'"
    using a(2) b(2) by simp
  then show ?thesis
    using a(1) b(1) assms nl by auto
qed

lemma wrap_chunks_weave:
  "\<exists>new gaps. wrap_chunks w chunks lines = lines @ new \<and> length gaps = Suc (length new)
      \<and> list_all blank gaps \<and> weave gaps new = concat chunks"
proof (induction w chunks lines rule: wrap_chunks.induct)
  case (1 width chunks lines)
  show ?case
  proof (cases "chunks = []")
    case True
    then have "wrap_chunks width chunks lines = lines @ [] \<and> length [[]] = Suc (length ([] :: string list))
        \<and> list_all blank [[]] \<and> weave [[]] [] = concat chunks"
      by (simp add: wrap_chunks.simps)
    then show ?thesis by blast
  next
    case False
    obtain cur_line rest where nl: "next_line width (lines \<noteq> []) chunks = (cur_line, rest)"
      by (cases "next_line width (lines \<noteq> []) chunks") auto
    let ?lines = "if cur_line \<noteq> [] then lines @ [concat cur_line] else lines"
    have step: "wrap_chunks width chunks lines = wrap_chunks width rest ?lines"
      using False nl by (subst wrap_chunks.simps) simp
    obtain new gaps where IH: "wrap_chunks width rest ?lines = ?lines @ new"
        "length gaps = Suc (length new)" "list_all blank gaps" "weave gaps new = concat rest"
      using 1 [OF False nl [symmetric]] by blast
    obtain g gs where gaps: "gaps = g # gs"
      using IH(2) by (cases gaps) auto
    obtain a b where parts: "blank a" "blank b" "concat chunks = a @ concat cur_line @ b @ concat rest"
      using next_line_parts [OF nl] by blast
    show ?thesis
    proof (cases "cur_line = []")
      case True
      have "wrap_chunks width chunks lines = lines @ new
          \<and> length ((a @ b @ g) # gs) = Suc (length new)
          \<and> list_all blank ((a @ b @ g) # gs)
          \<and> weave ((a @ b @ g) # gs) new = concat chunks"
        using True step IH gaps parts weave_gap [of "a @ b" g gs new]
        by (simp add: blank_append)
      then show ?thesis by blast
    next
      case False
      have "wrap_chunks width chunks lines = lines @ (concat cur_line # new)
          \<and> length (a # (b @ g) # gs) = Suc (length (concat cur_line # new))
          \<and> list_all blank (a # (b @ g) # gs)
          \<and> weave (a # (b @ g) # gs) (concat cur_line # new) = concat chunks"
        using False step IH gaps parts weave_gap [of b g gs new]
        by (simp add: blank_append)
      then show ?thesis by blast
    qed
  qed
qed

lemma expandtabs_pieces:
  "\<exists>pieces. expandtabs 8 col s = concat pieces
     \<and> list_all2 (\<lambda>c p. if c = CHR 0x09
                  then 1 \<le> length p \<and> length p \<le> 8 \<and> p = replicate (length p) CHR '' ''
                  else p = [c]) s pieces"
proof (induction s arbitrary: col)
  case Nil
  have "expandtabs 8 col [] = concat [] \<and> list_all2 (\<lambda>c p. if c = CHR 0x09
                  then 1 \<le> length p \<and> length p \<le> 8 \<and> p = replicate (length p) CHR '' ''
                  else p = [c]) [] []"
    by simp
  then show ?case by blast
next
  case (Cons c s)
  show ?case
  proof (cases "c = CHR 0x09")
    case True
    obtain pieces where p: "expandtabs 8 (col + (8 - col mod 8)) s = concat pieces"
      "list_all2 (\<lambda>c p. if c = CHR 0x09
                  then 1 \<le> length p \<and> length p \<le> 8 \<and> p = replicate (length p) CHR '' ''
                  else p = [c]) s pieces"
      using Cons [of "col + (8 - col mod 8)"] by blast
    let ?p = "replicate (8 - col mod 8) CHR '' ''"
    have "1 \<le> length ?p \<and> length ?p \<le> 8 \<and> ?p = replicate (length ?p) CHR '' ''"
      by simp
    then have "expandtabs 8 col (c # s) = concat (?p # pieces)
      \<and> list_all2 (\<lambda>c p. if c = CHR 0x09
                  then 1 \<le> length p \<and> length p \<le> 8 \<and> p = replicate (length p) CHR '' ''
                  else p = [c]) (c # s) (?p # pieces)"
      using True p by simp
    then show ?thesis by blast
  next
    case False
    obtain pieces where p: "expandtabs 8 (if c = newline \<or> c = CHR 0x0D then 0 else col + 1) s = concat pieces"
      "list_all2 (\<lambda>c p. if c = CHR 0x09
                  then 1 \<le> length p \<and> length p \<le> 8 \<and> p = replicate (length p) CHR '' ''
                  else p = [c]) s pieces"
      using Cons [of "if c = newline \<or> c = CHR 0x0D then 0 else col + 1"] by blast
    have "expandtabs 8 col (c # s) = concat ([c] # pieces)
      \<and> list_all2 (\<lambda>c p. if c = CHR 0x09
                  then 1 \<le> length p \<and> length p \<le> 8 \<and> p = replicate (length p) CHR '' ''
                  else p = [c]) (c # s) ([c] # pieces)"
      using False p by simp
    then show ?thesis by blast
  qed
qed

lemma munge_whitespace_pieces:
  "\<exists>pieces. munge_whitespace s = concat pieces \<and> list_all2 normal_piece s pieces"
proof -
  let ?f = "\<lambda>c. if tw_whitespace c then CHR '' '' else c"
  obtain pieces where p: "expandtabs 8 0 s = concat pieces"
     "list_all2 (\<lambda>c p. if c = CHR 0x09
                  then 1 \<le> length p \<and> length p \<le> 8 \<and> p = replicate (length p) CHR '' ''
                  else p = [c]) s pieces"
    using expandtabs_pieces [of 0 s] by blast
  have "munge_whitespace s = concat (map (map ?f) pieces)"
    by (simp add: munge_whitespace_def p(1) map_concat)
  moreover have "list_all2 normal_piece s (map (map ?f) pieces)"
    using p(2)
  proof (induction s pieces rule: list_all2_induct)
    case Nil
    then show ?case by simp
  next
    case (Cons c cs p ps)
    have "normal_piece c (map ?f p)"
    proof (cases "c = CHR 0x09")
      case True
      have h: "1 \<le> length p \<and> length p \<le> 8 \<and> p = replicate (length p) CHR '' ''"
        using Cons(1) by (simp only: True if_True simp_thms)
      have "map ?f (replicate n CHR '' '') = replicate n CHR '' ''" for n
        by (simp add: tw_whitespace_def)
      then have "map ?f p = replicate (length p) CHR '' ''"
        using h by metis
      then show ?thesis
        using True h by (simp add: normal_piece_def)
    next
      case False
      then show ?thesis
        using Cons(1) by (simp add: normal_piece_def)
    qed
    then show ?case using Cons by simp
  qed
  ultimately show ?thesis by blast
qed

text \<open>
  Claim C1, as amended. For every text and every positive maximum, 1000 in the script,
  the chunker returns segments that reconstruct, losslessly and in left-to-right order,
  the text with its whitespace normalised, once a stretch of whitespace is put back
  before each segment and after the last: what the splitting dropped between two
  segments and at the two ends of the text. Normalised means that each tab is 1 to 8
  spaces, each line feed, vertical tab, form feed, carriage return and space is one
  space, and every other character is itself. (As stated, of the text itself, the claim
  fails wherever a tab or one of these characters stands inside a segment.)
\<close>

theorem chunker_preserves_text:
  "0 < max_chars \<longrightarrow>
     (\<exists>segments gaps pieces.
        split_text text max_chars = Inr segments
        \<and> length gaps = length segments + 1
        \<and> list_all blank gaps
        \<and> weave gaps segments = concat pieces
        \<and> list_all2 normal_piece text pieces
        \<and> concat pieces = munge_whitespace text)"
proof
  assume pos: "0 < max_chars"
  obtain new gaps where w: "wrap_chunks (nat max_chars) (split_chunks text) [] = [] @ new"
      "length gaps = Suc (length new)" "list_all blank gaps"
      "weave gaps new = concat (split_chunks text)"
    using wrap_chunks_weave [of "nat max_chars" "split_chunks text" "[]"] by blast
  obtain pieces where p: "munge_whitespace text = concat pieces" "list_all2 normal_piece text pieces"
    using munge_whitespace_pieces [of "text"] by blast
  have "split_text text max_chars = Inr new"
    using pos w(1) by (simp add: split_text_def wrap_def)
  moreover have "weave gaps new = concat pieces"
    using w(4) p(1) by (simp add: split_chunks_def concat_tw_split)
  ultimately show "\<exists>segments gaps pieces.
        split_text text max_chars = Inr segments
        \<and> length gaps = length segments + 1
        \<and> list_all blank gaps
        \<and> weave gaps segments = concat pieces
        \<and> list_all2 normal_piece text pieces
        \<and> concat pieces = munge_whitespace text"
    using w(2,3) p by auto
qed


subsection \<open>A short text is one chunk\<close>

















section \<open>Worked examples\<close>

text \<open>
  The theorems above, applied to the session of the scenario, and the inputs at which
  two sentences of the specification fail.
\<close>

lemma demo_run:
  "run_script demo_externals demo_widgets None =
     (Some \<lparr>questions = [''What color is the sky?'', ''What is wet?''],
            user_answers = [''Blue'', ''rain'']\<rparr>,
      [Success ''Document uploaded and text extracted successfully!'',
       Subheader ''Auto-Generated Summary'',
       Info ''Summarizing the main points of your uploaded document...'',
       Call_summarizer ''The sky is blue. Water is wet.'',
       Write ''1. Sky and water.'',
       Markdown ''---'',
       Subheader ''Ask Anything About the Document'',
       Markdown ''Type a question to get an answer based strictly on the document.'',
       Text_input ''Ask your question'' None,
       Button ''Get Answer'',
       Call_qa ''What?'' ''The sky is blue. Water is wet.'',
       Success ''Answer: blue'',
       Caption ''Confidence Score: 91.0%'',
       Markdown ''---'',
       Subheader ''Challenge Me: Auto Quiz'',
       Markdown ''Click below to generate 3 logic/comprehension questions based on your document.'',
       Button ''Generate Questions'',
       Call_generator ''generate questions: The sky is blue. Water is wet.'',
       Text ''Q1: What color is the sky?'',
       Text_input ''Your Answer'' (Some ''ans_0''),
       Text ''Q2: What is wet?'',
       Text_input ''Your Answer'' (Some ''ans_1''),
       Button ''Evaluate Answers'',
       Subheader ''Evaluation Results'',
       Call_qa ''What color is the sky?'' ''The sky is blue. Water is wet.'',
       Markdown ''*Q1: What color is the sky?*'',
       Write ''Your Answer: Blue'',
       Write ''Correct Answer: blue'',
       Success ''Correct'',
       Caption ''Confidence Score: 91.0%'',
       Markdown ''---'',
       Call_qa ''What is wet?'' ''The sky is blue. Water is wet.'',
       Markdown ''*Q2: What is wet?*'',
       Write ''Your Answer: rain'',
       Write ''Correct Answer: blue'',
       Error ''Incorrect'',
       Caption ''Confidence Score: 91.0%'',
       Markdown ''---''],
      None)"
  by code_simp

theorem context_truncator_witness:
  "Call_qa ''What?'' ''The sky is blue. Water is wet.''
     \<in> set (trace (run_script demo_externals demo_widgets None))
   \<and> length ''The sky is blue. Water is wet.'' \<le> 2000
   \<and> truncate_context ''The sky is blue. Water is wet.'' = ''The sky is blue. Water is wet.''"
proof -
  have call: "Call_qa ''What?'' ''The sky is blue. Water is wet.''
     \<in> set (trace (run_script demo_externals demo_widgets None))"
    by (simp add: demo_run trace_def)
  have "truncate_context ''The sky is blue. Water is wet.'' = ''The sky is blue. Water is wet.''"
    by (simp add: truncate_context_def)
  then show ?thesis
    using call context_truncator [of "''The sky is blue. Water is wet.''" demo_externals demo_widgets None]
    by simp
qed

theorem quiz_lengths_invariant_witness:
  "reachable (Some \<lparr>questions = [''What color is the sky?'', ''What is wet?''],
                    user_answers = [''Blue'', ''rain'']\<rparr>)
   \<and> quiz_inv (Some \<lparr>questions = [''What color is the sky?'', ''What is wet?''],
                     user_answers = [''Blue'', ''rain'']\<rparr>)
   \<and> length [''What color is the sky?'', ''What is wet?''] = length [''Blue'', ''rain'']"
proof -
  have reach: "reachable (Some \<lparr>questions = [''What color is the sky?'', ''What is wet?''],
                    user_answers = [''Blue'', ''rain'']\<rparr>)"
    by (rule reachable.run [OF reachable.start demo_run])
  show ?thesis
    using reach quiz_lengths_invariant [OF reach] by simp
qed

theorem evaluate_frame_witness:
  "questions (fst (evaluate_handler demo_externals ''The sky is blue.''
      \<lparr>questions = [''What color is the sky?''], user_answers = [''Blue'']\<rparr>))
     = [''What color is the sky?'']
   \<and> user_answers (fst (evaluate_handler demo_externals ''The sky is blue.''
      \<lparr>questions = [''What color is the sky?''], user_answers = [''Blue'']\<rparr>))
     = [''Blue'']"
  using evaluate_frame [of demo_externals "''The sky is blue.''"
      "\<lparr>questions = [''What color is the sky?''], user_answers = [''Blue'']\<rparr>"]
  by simp

theorem unsupported_type_witness:
  "file_type \<lparr>file_type = ''application/json'', file_bytes = []\<rparr> \<noteq> ''application/pdf''
   \<and> file_type \<lparr>file_type = ''application/json'', file_bytes = []\<rparr> \<noteq> ''text/plain''
   \<and> extract_file_text demo_externals \<lparr>file_type = ''application/json'', file_bytes = []\<rparr> = Inr []
   \<and> run_script demo_externals
        (demo_widgets\<lparr>uploaded_file := Some \<lparr>file_type = ''application/json'', file_bytes = []\<rparr>\<rparr>)
        None
      = (None, [Success ''Document uploaded and text extracted successfully!''], None)"
  using unsupported_type [of "\<lparr>file_type = ''application/json'', file_bytes = []\<rparr>" demo_externals
      "demo_widgets\<lparr>uploaded_file := Some \<lparr>file_type = ''application/json'', file_bytes = []\<rparr>\<rparr>" None]
  by simp

lemma generate_questions_scenario:
  "questions (generate_questions (''What color is the sky?'' @ [newline] @ ''What is wet?'' @ [newline])
      \<lparr>questions = [], user_answers = []\<rparr>)
     = [''What color is the sky?'', ''What is wet?'']
   \<and> user_answers (generate_questions (''What color is the sky?'' @ [newline] @ ''What is wet?'' @ [newline])
      \<lparr>questions = [], user_answers = []\<rparr>)
     = [[], []]"
proof -
  have lines: "nonblank_lines (''What color is the sky?'' @ [newline] @ ''What is wet?'' @ [newline])
      = [''What color is the sky?'', ''What is wet?'']"
    by code_simp
  have trimmed: "map strip [''What color is the sky?'', ''What is wet?'']
      = [''What color is the sky?'', ''What is wet?'']"
    by code_simp
  show ?thesis
    using generate_questions_lines [of "''What color is the sky?'' @ [newline] @ ''What is wet?'' @ [newline]"
        "\<lparr>questions = [], user_answers = []\<rparr>"]
    by (simp only: lines trimmed) simp
qed

lemma demo_load:
  "load_document demo_externals demo_widgets
     = Inr (''The sky is blue. Water is wet.'',
            [Success ''Document uploaded and text extracted successfully!''])"
  by code_simp

theorem evaluate_gate_witness:
  "snd (snd (quiz_section demo_externals demo_widgets ''The sky is blue. Water is wet.'' None)) = None
   \<and> fst (quiz_section demo_externals demo_widgets ''The sky is blue. Water is wet.'' None)
       = \<lparr>questions = [''What color is the sky?'', ''What is wet?''],
          user_answers = [''Blue'', ''rain'']\<rparr>
   \<and> Button ''Evaluate Answers''
       \<in> set (trace (quiz_section demo_externals demo_widgets ''The sky is blue. Water is wet.'' None))
   \<and> load_document demo_externals demo_widgets
       = Inr (''The sky is blue. Water is wet.'',
              [Success ''Document uploaded and text extracted successfully!''])
   \<and> fst (run_script demo_externals demo_widgets None)
       = Some \<lparr>questions = [''What color is the sky?'', ''What is wet?''],
               user_answers = [''Blue'', ''rain'']\<rparr>
   \<and> snd (snd (run_script demo_externals demo_widgets None)) = None
   \<and> Button ''Evaluate Answers'' \<in> set (trace (run_script demo_externals demo_widgets None))
   \<and> Subheader ''Evaluation Results'' \<in> set (trace (run_script demo_externals demo_widgets None))
   \<and> evaluate demo_widgets
   \<and> answers_complete \<lparr>questions = [''What color is the sky?'', ''What is wet?''],
                         user_answers = [''Blue'', ''rain'']\<rparr>"
proof -
  let ?doc = "''The sky is blue. Water is wet.''"
  let ?st = "\<lparr>questions = [''What color is the sky?'', ''What is wet?''],
              user_answers = [''Blue'', ''rain'']\<rparr>"
  have ended: "snd (snd (quiz_section demo_externals demo_widgets ?doc None)) = None"
    by code_simp
  have left: "fst (quiz_section demo_externals demo_widgets ?doc None) = ?st"
    by code_simp
  have quiz: "quiz_section demo_externals demo_widgets ?doc None
      = (?st, trace (quiz_section demo_externals demo_widgets ?doc None), None)"
    using ended left by (metis prod.collapse trace_def)
  have ran: "Subheader ''Evaluation Results'' \<in> set (trace (run_script demo_externals demo_widgets None))"
    by (simp add: demo_run trace_def)
  have full: "answers_complete ?st"
    by code_simp
  have run: "run_script demo_externals demo_widgets None
      = (Some ?st, trace (run_script demo_externals demo_widgets None), None)"
    by (simp add: demo_run trace_def)
  note gate = evaluate_gate [where x = demo_externals and w = demo_widgets and sess = None
      and document_text = ?doc and st = ?st
      and ev = "trace (quiz_section demo_externals demo_widgets ?doc None)"
      and doc = ?doc and shown = "[Success ''Document uploaded and text extracted successfully!'']"
      and st' = ?st and ev' = "trace (run_script demo_externals demo_widgets None)"]
  have "Button ''Evaluate Answers''
       \<in> set (trace (quiz_section demo_externals demo_widgets ?doc None))"
    using gate quiz full by simp
  moreover have "Button ''Evaluate Answers'' \<in> set (trace (run_script demo_externals demo_widgets None))"
    using gate run demo_load full by simp
  moreover have "evaluate demo_widgets"
    using gate ran by blast
  ultimately show ?thesis
    using ended left demo_load ran full by (simp add: demo_run)
qed

lemma demo_chunks:
  "split_text ''The sky is blue. Water is wet.'' 1000 = Inr [''The sky is blue. Water is wet.'']"
  by code_simp

theorem summarizer_adapter_witness:
  "split_text ''The sky is blue. Water is wet.'' 1000 = Inr [''The sky is blue. Water is wet.'']
   \<and> summary_section demo_externals ''The sky is blue. Water is wet.'' =
       ([Subheader ''Auto-Generated Summary'',
         Info ''Summarizing the main points of your uploaded document...'',
         Call_summarizer ''The sky is blue. Water is wet.'',
         Write ''1. Sky and water.'',
         Markdown ''---''],
        None)"
proof -
  have shown: "strip (join [newline, newline]
      (map (\<lambda>(i, c). labelled i ''Sky and water.'')
         (enumerate 0 (take 5 [''The sky is blue. Water is wet.'']))))
      = ''1. Sky and water.''"
    by code_simp
  have calls: "\<forall>c \<in> set (take 5 [''The sky is blue. Water is wet.'']).
      summarizer demo_externals c = Inr ''Sky and water.''"
    by (simp add: demo_externals_def)
  show ?thesis
    using calls
      summarizer_adapter [OF demo_chunks, of demo_externals "\<lambda>c. ''Sky and water.''"]
    by (simp only: shown demo_chunks) simp
qed



lemma demo_split: "split_text ''ab cd'' 3 = Inr [''ab'', ''cd'']"
  by code_simp

theorem chunker_preserves_text_witness:
  "(0 :: int) < 3
   \<and> split_text ''ab cd'' 3 = Inr [''ab'', ''cd'']
   \<and> (\<exists>gaps pieces.
         length gaps = 3
         \<and> list_all blank gaps
         \<and> weave gaps [''ab'', ''cd''] = concat pieces
         \<and> list_all2 normal_piece ''ab cd'' pieces
         \<and> concat pieces = ''ab cd'')"
proof -
  have normalised: "munge_whitespace ''ab cd'' = ''ab cd''"
    by code_simp
  obtain segments gaps pieces where parts: "split_text ''ab cd'' 3 = Inr segments"
      "length gaps = length segments + 1" "list_all blank gaps"
      "weave gaps segments = concat pieces" "list_all2 normal_piece ''ab cd'' pieces"
      "concat pieces = munge_whitespace ''ab cd''"
    using chunker_preserves_text [of 3 "''ab cd''"] by auto
  have "segments = [''ab'', ''cd'']"
    using parts(1) demo_split by simp
  then have "length gaps = 3
         \<and> list_all blank gaps
         \<and> weave gaps [''ab'', ''cd''] = concat pieces
         \<and> list_all2 normal_piece ''ab cd'' pieces
         \<and> concat pieces = ''ab cd''"
    using parts normalised by simp
  then have "\<exists>gaps pieces.
         length gaps = 3
         \<and> list_all blank gaps
         \<and> weave gaps [''ab'', ''cd''] = concat pieces
         \<and> list_all2 normal_piece ''ab cd'' pieces
         \<and> concat pieces = ''ab cd''"
    by blast
  then show ?thesis
    using demo_split by simp
qed

theorem chunker_preserves_text_counterexample:
  "split_text [CHR ''a'', CHR 0x09, CHR ''b''] 1000 = Inr [''a       b'']
   \<and> concat [''a       b''] \<noteq> [CHR ''a'', CHR 0x09, CHR ''b'']"
  by code_simp



end
